theory Spec2Isabelle
  imports Main "HOL-Library.Multiset"
begin

section \<open>FrameDAG: the graph store of \<^verbatim>\<open>DAG.h\<close>\<close>

text \<open>
  \<^verbatim>\<open>NodeID\<close> is \<^verbatim>\<open>size_t\<close>, used only as a vector index and compared with
  \<^verbatim>\<open>nodes.size()\<close>; it is a \<^typ>\<open>nat\<close> here.  The static in-degree is a C++ \<^verbatim>\<open>int\<close>
  (32 bits on the project's x64 platform); it is an \<^typ>\<open>int\<close> here that stays at or
  below \<open>INT_MAX\<close>: \<^verbatim>\<open>base_indegree[to]++\<close> at \<open>INT_MAX\<close> is a signed overflow, which
  has no defined behaviour in C++ and is an error outcome of \<open>add_edge\<close> below.  The
  atomic counters wrap around on \<^verbatim>\<open>fetch_sub\<close>; that wrap-around is written out below.
\<close>

type_synonym NodeID = nat

definition INT_MAX :: int where
  "INT_MAX = 2147483647"

subsection \<open>\<^verbatim>\<open>std::any\<close> and the errors of the port accessors\<close>

text \<open>
  A \<^verbatim>\<open>std::any\<close> is empty or holds one object together with the identity of its type
  (\<^verbatim>\<open>typeid\<close>).  \<open>'y\<close> is the type of type identities, \<open>'v\<close> the type of stored objects.
\<close>

datatype ('y, 'v) any = Any_empty | Any_holds 'y 'v

text \<open>
  \<open>Index_out_of_bounds\<close>: \<^verbatim>\<open>operator[]\<close> of \<^verbatim>\<open>std::vector\<close> past the end (no check in
  the source, the access has no defined result).  \<open>Bad_any_cast\<close>: the exception
  \<^verbatim>\<open>std::bad_any_cast\<close> thrown by \<^verbatim>\<open>std::any_cast\<close>.  \<open>Signed_overflow\<close>: \<^verbatim>\<open>++\<close> on an
  \<^verbatim>\<open>int\<close> that holds \<open>INT_MAX\<close> (no defined result).
\<close>

datatype error = Index_out_of_bounds | Bad_any_cast | Signed_overflow

text \<open>\<^verbatim>\<open>std::any_cast<ValType>(a)\<close>, where \<open>ty\<close> is the identity of \<^verbatim>\<open>ValType\<close>.\<close>

fun any_cast :: "'y \<Rightarrow> ('y, 'v) any \<Rightarrow> error + 'v" where
  "any_cast ty Any_empty = Inl Bad_any_cast"
| "any_cast ty (Any_holds ty' v) = (if ty' = ty then Inr v else Inl Bad_any_cast)"

subsection \<open>The class \<^verbatim>\<open>DAG<T>\<close>\<close>

record ('t, 'y, 'v) Node =
  data :: 't
  output_any :: "('y, 'v) any"

record ('t, 'y, 'v) DAG =
  nodes :: "('t, 'y, 'v) Node list"
  adj :: "NodeID list list"
  base_indegree :: "int list"
  current_indegree :: "int list"
  remaining :: nat

text \<open>
  The implicit default constructor: the vectors are empty; \<^verbatim>\<open>std::atomic<size_t> remaining\<close>
  has no initialiser, so under the project's C++17 its content \<open>r\<close> is indeterminate.
\<close>

definition DAG_default :: "nat \<Rightarrow> ('t, 'y, 'v) DAG" where
  "DAG_default r =
     \<lparr>nodes = [], adj = [], base_indegree = [], current_indegree = [], remaining = r\<rparr>"

definition size_dag :: "('t, 'y, 'v) DAG \<Rightarrow> nat" where
  "size_dag g = length (nodes g)"

definition add_node :: "'t \<Rightarrow> ('t, 'y, 'v) DAG \<Rightarrow> NodeID \<times> ('t, 'y, 'v) DAG" where
  "add_node d g =
     (let nid = length (nodes g) in
      (nid, g\<lparr>nodes := nodes g @ [\<lparr>data = d, output_any = Any_empty\<rparr>],
             adj := adj g @ [[]],
             base_indegree := base_indegree g @ [0]\<rparr>))"

text \<open>
  \<^verbatim>\<open>add_edge\<close>: the guard returns at once for a handle out of range; else \<open>to\<close> is
  pushed on the successor list of \<open>from\<close> and \<^verbatim>\<open>base_indegree[to]++\<close> adds one, which
  overflows when the in-degree is already \<open>INT_MAX\<close>.
\<close>

definition add_edge ::
  "NodeID \<Rightarrow> NodeID \<Rightarrow> ('t, 'y, 'v) DAG \<Rightarrow> error + ('t, 'y, 'v) DAG" where
  "add_edge frm to g =
     (if frm \<ge> length (nodes g) \<or> to \<ge> length (nodes g) then Inr g
      else if base_indegree g ! to < INT_MAX
      then Inr (g\<lparr>adj := (adj g)[frm := adj g ! frm @ [to]],
                  base_indegree := (base_indegree g)[to := base_indegree g ! to + 1]\<rparr>)
      else Inl Signed_overflow)"

text \<open>
  \<^verbatim>\<open>reset\<close>: the vector of live counters is replaced by \<open>n\<close> zero-initialised atomics when
  its size is not the node count; then the loop stores \<^verbatim>\<open>base_indegree[i]\<close> into counter
  \<open>i\<close> for \<open>i = 0, ..., n - 1\<close>; last, \<^verbatim>\<open>remaining\<close> is set to the node count (the
  size of a vector fits \<^verbatim>\<open>size_t\<close>, so that store does not truncate).
\<close>

definition reset :: "('t, 'y, 'v) DAG \<Rightarrow> ('t, 'y, 'v) DAG" where
  "reset g =
     (let n = length (nodes g);
          c0 = (if length (current_indegree g) \<noteq> n then replicate n 0 else current_indegree g);
          c = fold (\<lambda>i c. c[i := base_indegree g ! i]) [0..<n] c0
      in g\<lparr>current_indegree := c, remaining := n\<rparr>)"

text \<open>
  The port accessors index \<^verbatim>\<open>nodes[id]\<close> with no check: past the end the result is
  \<open>Inl Index_out_of_bounds\<close>.  \<open>ty\<close> is the identity of the template argument
  \<^verbatim>\<open>ValType\<close>.
\<close>

definition set_port_value ::
  "NodeID \<Rightarrow> ('y, 'v) any \<Rightarrow> ('t, 'y, 'v) DAG \<Rightarrow> error + ('t, 'y, 'v) DAG" where
  "set_port_value nid a g =
     (if nid < length (nodes g)
      then Inr (g\<lparr>nodes := (nodes g)[nid := (nodes g ! nid)\<lparr>output_any := a\<rparr>]\<rparr>)
      else Inl Index_out_of_bounds)"

definition get_port_value :: "'y \<Rightarrow> NodeID \<Rightarrow> ('t, 'y, 'v) DAG \<Rightarrow> error + 'v" where
  "get_port_value ty nid g =
     (if nid < length (nodes g) then any_cast ty (output_any (nodes g ! nid))
      else Inl Index_out_of_bounds)"

text \<open>
  \<^verbatim>\<open>T& operator[](NodeID nid) { return nodes[nid]; }\<close>: the returned expression is the
  whole \<^verbatim>\<open>Node\<close>, not its \<^verbatim>\<open>data\<close> member.
\<close>

definition operator_index ::
  "('t, 'y, 'v) DAG \<Rightarrow> NodeID \<Rightarrow> error + ('t, 'y, 'v) Node" where
  "operator_index g nid =
     (if nid < length (nodes g) then Inr (nodes g ! nid) else Inl Index_out_of_bounds)"

subsection \<open>Sequences of calls on a graph\<close>

text \<open>
  The public operations that change a graph, as a caller issues them one after another;
  the first failing call ends the sequence with its error.
\<close>

datatype ('t, 'y, 'v) call =
    Add_node 't
  | Add_edge NodeID NodeID
  | Reset
  | Set_port_value NodeID "('y, 'v) any"

fun do_call :: "('t, 'y, 'v) call \<Rightarrow> ('t, 'y, 'v) DAG \<Rightarrow> error + ('t, 'y, 'v) DAG" where
  "do_call (Add_node d) g = Inr (snd (add_node d g))"
| "do_call (Add_edge frm to) g = add_edge frm to g"
| "do_call Reset g = Inr (reset g)"
| "do_call (Set_port_value nid a) g = set_port_value nid a g"

fun do_calls :: "('t, 'y, 'v) call list \<Rightarrow> ('t, 'y, 'v) DAG \<Rightarrow> error + ('t, 'y, 'v) DAG" where
  "do_calls [] g = Inr g"
| "do_calls (c # cs) g = (case do_call c g of Inl e \<Rightarrow> Inl e | Inr g' \<Rightarrow> do_calls cs g')"

fun writes_port :: "NodeID \<Rightarrow> ('t, 'y, 'v) call \<Rightarrow> bool" where
  "writes_port nid (Set_port_value nid' a) = (nid' = nid)"
| "writes_port nid c = False"

subsection \<open>The class invariant of the graph store\<close>

text \<open>
  The three structural vectors have one entry per node, every recorded successor is a
  node, the static in-degree of a node is the number of times it occurs in the
  successor lists, and every static in-degree is a value of \<^verbatim>\<open>int\<close>.
\<close>

definition edge_list :: "('t, 'y, 'v) DAG \<Rightarrow> (NodeID \<times> NodeID) list" where
  "edge_list g = concat (map (\<lambda>u. map (Pair u) (adj g ! u)) [0..<length (adj g)])"

definition edges :: "('t, 'y, 'v) DAG \<Rightarrow> (NodeID \<times> NodeID) set" where
  "edges g = set (edge_list g)"

definition wf_dag :: "('t, 'y, 'v) DAG \<Rightarrow> bool" where
  "wf_dag g \<longleftrightarrow>
     length (adj g) = length (nodes g) \<and>
     length (base_indegree g) = length (nodes g) \<and>
     (\<forall>vs \<in> set (adj g). \<forall>v \<in> set vs. v < length (nodes g)) \<and>
     (\<forall>v \<in> set [0..<length (nodes g)].
         base_indegree g ! v = int (count_list (concat (adj g)) v)) \<and>
     (\<forall>b \<in> set (base_indegree g). b \<le> INT_MAX)"

text \<open>
  The graph of the sample program, the diamond of four nodes, and the calls that build
  it.
\<close>

definition diamond_calls :: "(nat, nat, int) call list" where
  "diamond_calls =
     [Add_node 0, Add_node 1, Add_node 2, Add_node 3,
      Add_edge 0 1, Add_edge 0 2, Add_edge 1 3, Add_edge 2 3]"

definition diamond :: "(nat, nat, int) DAG" where
  "diamond =
     \<lparr>nodes = [\<lparr>data = 0, output_any = Any_empty\<rparr>,
               \<lparr>data = 1, output_any = Any_empty\<rparr>,
               \<lparr>data = 2, output_any = Any_empty\<rparr>,
               \<lparr>data = 3, output_any = Any_empty\<rparr>],
      adj = [[1, 2], [3], [3], []],
      base_indegree = [0, 1, 1, 2],
      current_indegree = [],
      remaining = 0\<rparr>"

text \<open>
  A graph with \<open>INT_MAX\<close> edges from node 0 to node 1, as \<open>INT_MAX\<close> calls
  \<^verbatim>\<open>add_edge(0, 1)\<close> build it.
\<close>

definition saturated :: "(nat, nat, int) DAG" where
  "saturated =
     \<lparr>nodes = [\<lparr>data = 0, output_any = Any_empty\<rparr>, \<lparr>data = 1, output_any = Any_empty\<rparr>],
      adj = [replicate (nat INT_MAX) 1, []],
      base_indegree = [0, INT_MAX],
      current_indegree = [],
      remaining = 0\<rparr>"

section \<open>The class \<^verbatim>\<open>ThreadPool\<close>\<close>

text \<open>
  A worker thread is waiting at the top of its loop, running a task it took from the
  queue, or has returned from its loop.  \<open>'q\<close> is the type of queued tasks, \<open>'k\<close> what
  is known of a task while it runs.
\<close>

datatype 'k worker = Waiting | Running 'k | Exited

record ('q, 'k) ThreadPool =
  workers :: "'k worker list"
  tasks :: "'q list"
  stop :: bool

text \<open>
  \<^verbatim>\<open>ThreadPool(size_t threads)\<close>: the loop starts one worker per \<open>i < threads\<close>; the
  queue is empty and \<^verbatim>\<open>stop\<close> is false.  With no argument, \<open>threads\<close> is what
  \<^verbatim>\<open>std::thread::hardware_concurrency()\<close> returns, the parameter \<open>hc\<close> here
  (the standard lets it be 0 when the number is not computable).
\<close>

definition ThreadPool_new :: "nat \<Rightarrow> ('q, 'k) ThreadPool" where
  "ThreadPool_new threads = \<lparr>workers = replicate threads Waiting, tasks = [], stop = False\<rparr>"

definition ThreadPool_ctor :: "nat \<Rightarrow> nat option \<Rightarrow> ('q, 'k) ThreadPool" where
  "ThreadPool_ctor hc arg = ThreadPool_new (case arg of None \<Rightarrow> hc | Some threads \<Rightarrow> threads)"

text \<open>
  Threads interleave in atomic steps.  A section guarded by a mutex is one step, and so
  is one atomic read-modify-write.  A thread in \<^verbatim>\<open>cv.wait(lock, pred)\<close> can take its next
  step exactly when \<open>pred\<close> holds; until then the step is \<open>Blocked\<close>.  A step that
  indexes a vector out of range is \<open>Undefined\<close>.
\<close>

datatype 's step_result = Blocked | Undefined | Next 's

text \<open>\<^verbatim>\<open>enqueue\<close>: push under the lock (the notification wakes a waiting worker).\<close>

definition enqueue :: "'q \<Rightarrow> ('q, 'k) ThreadPool \<Rightarrow> ('q, 'k) ThreadPool" where
  "enqueue f p = p\<lparr>tasks := tasks p @ [f]\<rparr>"

text \<open>
  The head of the worker loop, one step under the lock: wait until
  \<^verbatim>\<open>stop || !tasks.empty()\<close>; return from the loop if \<^verbatim>\<open>stop && tasks.empty()\<close>;
  else take the front task off the queue.
\<close>

datatype 'q fetched = Quit | Task 'q

definition worker_fetch :: "('q, 'k) ThreadPool \<Rightarrow> ('q fetched \<times> ('q, 'k) ThreadPool) step_result" where
  "worker_fetch p =
     (if \<not> (stop p \<or> tasks p \<noteq> []) then Blocked
      else if stop p \<and> tasks p = [] then Next (Quit, p)
      else Next (Task (hd (tasks p)), p\<lparr>tasks := tl (tasks p)\<rparr>))"

subsection \<open>Shutdown of a pool\<close>

text \<open>
  The pool with opaque tasks.  The threads are the workers, the thread that runs the
  destructor, and whoever calls \<^verbatim>\<open>enqueue\<close> (any thread that holds a reference to the
  pool, a running task included, as \<^verbatim>\<open>dispatch\<close> does).  The destructor sets
  \<^verbatim>\<open>stop\<close> under the lock, then joins the workers in order; joining worker \<open>i\<close>
  blocks until that thread has returned from its loop.  The history records what
  happened, oldest first.
\<close>

datatype dtor_pc = Alive | Joining nat | Destroyed

datatype 'q pool_event =
    Task_enqueued 'q
  | Stop_signalled
  | Task_started nat 'q
  | Task_finished nat 'q
  | Worker_exited nat
  | Worker_joined nat

datatype 'q pool_action = Call_enqueue 'q | Worker_step nat | Destructor_step

record 'q pool_state =
  pool :: "('q, 'q) ThreadPool"
  dtor :: dtor_pc
  history :: "'q pool_event list"

definition pool_init :: "nat \<Rightarrow> 'q pool_state" where
  "pool_init threads = \<lparr>pool = ThreadPool_new threads, dtor = Alive, history = []\<rparr>"

definition set_worker :: "nat \<Rightarrow> 'k worker \<Rightarrow> ('q, 'k) ThreadPool \<Rightarrow> ('q, 'k) ThreadPool" where
  "set_worker i w p = p\<lparr>workers := (workers p)[i := w]\<rparr>"

fun pool_step :: "'q pool_action \<Rightarrow> 'q pool_state \<Rightarrow> 'q pool_state step_result" where
  "pool_step (Call_enqueue f) s =
     (if dtor s = Destroyed then Undefined
      else Next (s\<lparr>pool := enqueue f (pool s), history := history s @ [Task_enqueued f]\<rparr>))"
| "pool_step Destructor_step s =
     (case dtor s of
        Alive \<Rightarrow>
          Next (s\<lparr>pool := (pool s)\<lparr>stop := True\<rparr>, dtor := Joining 0,
                  history := history s @ [Stop_signalled]\<rparr>)
      | Joining i \<Rightarrow>
          if i < length (workers (pool s))
          then (if workers (pool s) ! i = Exited
                then Next (s\<lparr>dtor := Joining (i + 1), history := history s @ [Worker_joined i]\<rparr>)
                else Blocked)
          else Next (s\<lparr>dtor := Destroyed\<rparr>)
      | Destroyed \<Rightarrow> Blocked)"
| "pool_step (Worker_step i) s =
     (if i \<ge> length (workers (pool s)) then Blocked
      else case workers (pool s) ! i of
        Waiting \<Rightarrow>
          (case worker_fetch (pool s) of
             Blocked \<Rightarrow> Blocked
           | Undefined \<Rightarrow> Undefined
           | Next (Quit, p) \<Rightarrow>
               Next (s\<lparr>pool := set_worker i Exited p, history := history s @ [Worker_exited i]\<rparr>)
           | Next (Task f, p) \<Rightarrow>
               Next (s\<lparr>pool := set_worker i (Running f) p,
                       history := history s @ [Task_started i f]\<rparr>))
      | Running f \<Rightarrow>
          Next (s\<lparr>pool := set_worker i Waiting (pool s),
                  history := history s @ [Task_finished i f]\<rparr>)
      | Exited \<Rightarrow> Blocked)"

fun pool_run :: "'q pool_action list \<Rightarrow> 'q pool_state \<Rightarrow> 'q pool_state step_result" where
  "pool_run [] s = Next s"
| "pool_run (a # as) s =
     (case pool_step a s of Next s' \<Rightarrow> pool_run as s' | Blocked \<Rightarrow> Blocked
      | Undefined \<Rightarrow> Undefined)"

text \<open>The tasks enqueued after the stop signal, and the tasks some worker started.\<close>

fun enqueued_tasks :: "'q pool_event list \<Rightarrow> 'q list" where
  "enqueued_tasks [] = []"
| "enqueued_tasks (Task_enqueued f # h) = f # enqueued_tasks h"
| "enqueued_tasks (e # h) = enqueued_tasks h"

fun late_tasks :: "'q pool_event list \<Rightarrow> 'q list" where
  "late_tasks [] = []"
| "late_tasks (Stop_signalled # h) = enqueued_tasks h"
| "late_tasks (e # h) = late_tasks h"

fun started_tasks :: "'q pool_event list \<Rightarrow> 'q list" where
  "started_tasks [] = []"
| "started_tasks (Task_started i f # h) = f # started_tasks h"
| "started_tasks (e # h) = started_tasks h"

text \<open>The tasks worker \<open>i\<close> started, and those it ran to completion.\<close>

fun started_by :: "nat \<Rightarrow> 'q pool_event list \<Rightarrow> 'q list" where
  "started_by i [] = []"
| "started_by i (Task_started j f # h) = (if j = i then f # started_by i h else started_by i h)"
| "started_by i (e # h) = started_by i h"

fun finished_by :: "nat \<Rightarrow> 'q pool_event list \<Rightarrow> 'q list" where
  "finished_by i [] = []"
| "finished_by i (Task_finished j f # h) = (if j = i then f # finished_by i h else finished_by i h)"
| "finished_by i (e # h) = finished_by i h"

text \<open>
  The invariant of the shutdown model: the tasks a worker started are those it finished,
  and the one it is running; a joined worker has left its loop.
\<close>

definition pool_inv :: "'q pool_state \<Rightarrow> bool" where
  "pool_inv s \<longleftrightarrow>
     (\<forall>i < length (workers (pool s)).
        started_by i (history s) =
        finished_by i (history s) @ (case workers (pool s) ! i of Running f \<Rightarrow> [f] | _ \<Rightarrow> [])) \<and>
     (\<forall>i. Worker_joined i \<in> set (history s) \<longrightarrow>
        i < length (workers (pool s)) \<and> workers (pool s) ! i = Exited)"

section \<open>One pass: \<^verbatim>\<open>execute_parallel\<close> on the thread pool\<close>

text \<open>
  The threads of a pass are the thread that calls \<^verbatim>\<open>execute_parallel\<close> and the workers
  of the pool.  A worker that runs the task \<^verbatim>\<open>dispatch(u)\<close> is inside the executor
  (\<open>Executing u\<close>), in the loop over \<^verbatim>\<open>adj[u]\<close> with the successors \<open>vs\<close> still to
  visit (\<open>Resolving u vs\<close>), between a \<^verbatim>\<open>fetch_sub\<close> on the counter of \<open>v\<close> that
  returned 1 and the \<^verbatim>\<open>enqueue\<close> of \<^verbatim>\<open>dispatch(v)\<close> (\<open>Enqueuing u v vs\<close>), or
  between the \<^verbatim>\<open>fetch_sub\<close> on \<^verbatim>\<open>remaining\<close> that returned 1 and the notification
  (\<open>Notifying u\<close>).  The executor is the caller's function: of its run the model keeps
  the two events that it was called and that it returned.  It is taken to return and
  to leave the nodes, the edges and the counters of the graph alone, as the interface
  asks of it.  The atomics are used with the default sequentially consistent order, so
  the steps of all threads form one sequence.
\<close>

datatype dispatch_pc =
    Executing NodeID
  | Resolving NodeID "NodeID list"
  | Enqueuing NodeID NodeID "NodeID list"
  | Notifying NodeID

text \<open>
  The calling thread: before the emptiness test, in the seeding loop at index \<open>i\<close>,
  in \<^verbatim>\<open>wait_cv.wait\<close>, or returned.
\<close>

datatype caller_pc = Entry | Seeding nat | Wait | Returned

datatype event =
    Enqueued NodeID
  | Started NodeID
  | Finished NodeID
  | Decremented NodeID NodeID
  | Completed NodeID
  | Notified NodeID

datatype thread = Caller | Worker nat

record ('t, 'y, 'v) pass =
  dag :: "('t, 'y, 'v) DAG"
  thread_pool :: "(NodeID, dispatch_pc) ThreadPool"
  caller :: caller_pc
  trace :: "event list"

text \<open>
  The content an atomic holds after \<^verbatim>\<open>fetch_sub(1)\<close>: \<^verbatim>\<open>std::atomic<int>\<close> wraps at
  \<open>- 2^31\<close>, \<^verbatim>\<open>std::atomic<size_t>\<close> (64 bits on the project's x64 platform) at 0.
\<close>

definition fetch_sub_int :: "int \<Rightarrow> int" where
  "fetch_sub_int c = (if c = - (2 ^ 31) then 2 ^ 31 - 1 else c - 1)"

definition fetch_sub_size :: "nat \<Rightarrow> nat" where
  "fetch_sub_size r = (if r = 0 then 2 ^ 64 - 1 else r - 1)"

text \<open>
  The calling thread.  \<^verbatim>\<open>if (nodes.empty()) return;\<close> comes before \<^verbatim>\<open>reset()\<close>; the
  seeding loop enqueues \<^verbatim>\<open>dispatch(i)\<close> for each \<open>i\<close> with \<^verbatim>\<open>base_indegree[i] == 0\<close>;
  the wait returns when \<^verbatim>\<open>remaining.load() == 0\<close>.
\<close>

definition caller_step :: "('t, 'y, 'v) pass \<Rightarrow> ('t, 'y, 'v) pass step_result" where
  "caller_step s =
     (case caller s of
        Entry \<Rightarrow>
          if nodes (dag s) = [] then Next (s\<lparr>caller := Returned\<rparr>)
          else Next (s\<lparr>dag := reset (dag s), caller := Seeding 0\<rparr>)
      | Seeding i \<Rightarrow>
          if i < length (nodes (dag s))
          then (if i \<ge> length (base_indegree (dag s)) then Undefined
                else if base_indegree (dag s) ! i = 0
                then Next (s\<lparr>thread_pool := enqueue i (thread_pool s), caller := Seeding (i + 1),
                             trace := trace s @ [Enqueued i]\<rparr>)
                else Next (s\<lparr>caller := Seeding (i + 1)\<rparr>))
          else Next (s\<lparr>caller := Wait\<rparr>)
      | Wait \<Rightarrow> if remaining (dag s) = 0 then Next (s\<lparr>caller := Returned\<rparr>) else Blocked
      | Returned \<Rightarrow> Blocked)"

text \<open>
  One step of worker \<open>i\<close> inside \<^verbatim>\<open>dispatch\<close>.  The closure \<^verbatim>\<open>dispatch\<close>, which holds
  the references to the graph, the pool and the executor, and the objects \<^verbatim>\<open>wait_mtx\<close>
  and \<^verbatim>\<open>wait_cv\<close> are locals of \<^verbatim>\<open>execute_parallel\<close>: they end with the call.  A step
  inside \<^verbatim>\<open>dispatch\<close> that is taken after the call has returned uses one of them, be it
  the captured \<^verbatim>\<open>this\<close> of \<^verbatim>\<open>adj[u]\<close>, \<^verbatim>\<open>current_indegree[v]\<close> and \<^verbatim>\<open>remaining\<close>, the
  captured \<^verbatim>\<open>pool\<close> and \<^verbatim>\<open>dispatch\<close> of the enqueue, or \<^verbatim>\<open>wait_mtx\<close> and \<^verbatim>\<open>wait_cv\<close> of
  the notification, and has no defined behaviour.
\<close>

fun dispatch_step ::
  "nat \<Rightarrow> dispatch_pc \<Rightarrow> ('t, 'y, 'v) pass \<Rightarrow> ('t, 'y, 'v) pass step_result" where
  "dispatch_step i (Executing u) s =
     (if caller s \<noteq> Returned \<and> u < length (adj (dag s))
      then Next (s\<lparr>thread_pool := set_worker i (Running (Resolving u (adj (dag s) ! u))) (thread_pool s),
                   trace := trace s @ [Finished u]\<rparr>)
      else Undefined)"
| "dispatch_step i (Resolving u (v # vs)) s =
     (if caller s \<noteq> Returned \<and> v < length (current_indegree (dag s))
      then (let c = current_indegree (dag s) ! v in
            Next (s\<lparr>dag := (dag s)\<lparr>current_indegree := (current_indegree (dag s))[v := fetch_sub_int c]\<rparr>,
                    thread_pool :=
                      set_worker i (Running (if c = 1 then Enqueuing u v vs else Resolving u vs))
                        (thread_pool s),
                    trace := trace s @ [Decremented u v]\<rparr>))
      else Undefined)"
| "dispatch_step i (Enqueuing u v vs) s =
     (if caller s \<noteq> Returned
      then Next (s\<lparr>thread_pool := set_worker i (Running (Resolving u vs)) (enqueue v (thread_pool s)),
                   trace := trace s @ [Enqueued v]\<rparr>)
      else Undefined)"
| "dispatch_step i (Resolving u []) s =
     (if caller s \<noteq> Returned
      then (let r = remaining (dag s) in
            Next (s\<lparr>dag := (dag s)\<lparr>remaining := fetch_sub_size r\<rparr>,
                    thread_pool :=
                      set_worker i (if r = 1 then Running (Notifying u) else Waiting) (thread_pool s),
                    trace := trace s @ [Completed u]\<rparr>))
      else Undefined)"
| "dispatch_step i (Notifying u) s =
     (if caller s \<noteq> Returned
      then Next (s\<lparr>thread_pool := set_worker i Waiting (thread_pool s),
                   trace := trace s @ [Notified u]\<rparr>)
      else Undefined)"

text \<open>
  One step of worker \<open>i\<close>: the head of its loop, where a fetched task \<^verbatim>\<open>dispatch(u)\<close>
  starts with the call \<^verbatim>\<open>executor(u, nodes[u].data)\<close>, or a step inside the task.  The
  fetched task calls \<^verbatim>\<open>dispatch\<close> through the reference it holds, which dangles once
  \<^verbatim>\<open>execute_parallel\<close> has returned.
\<close>

definition worker_step :: "nat \<Rightarrow> ('t, 'y, 'v) pass \<Rightarrow> ('t, 'y, 'v) pass step_result" where
  "worker_step i s =
     (if i \<ge> length (workers (thread_pool s)) then Blocked
      else case workers (thread_pool s) ! i of
        Waiting \<Rightarrow>
          (case worker_fetch (thread_pool s) of
             Blocked \<Rightarrow> Blocked
           | Undefined \<Rightarrow> Undefined
           | Next (Quit, p) \<Rightarrow> Next (s\<lparr>thread_pool := set_worker i Exited p\<rparr>)
           | Next (Task u, p) \<Rightarrow>
               if caller s \<noteq> Returned \<and> u < length (nodes (dag s))
               then Next (s\<lparr>thread_pool := set_worker i (Running (Executing u)) p,
                            trace := trace s @ [Started u]\<rparr>)
               else Undefined)
      | Running pc \<Rightarrow> dispatch_step i pc s
      | Exited \<Rightarrow> Blocked)"

fun step :: "thread \<Rightarrow> ('t, 'y, 'v) pass \<Rightarrow> ('t, 'y, 'v) pass step_result" where
  "step Caller s = caller_step s"
| "step (Worker i) s = worker_step i s"

text \<open>
  A schedule is the list of the threads that move, in order.  A schedule that moves a
  blocked thread is not an execution.
\<close>

fun run :: "thread list \<Rightarrow> ('t, 'y, 'v) pass \<Rightarrow> ('t, 'y, 'v) pass step_result" where
  "run [] s = Next s"
| "run (t # ts) s =
     (case step t s of Next s' \<Rightarrow> run ts s' | Blocked \<Rightarrow> Blocked | Undefined \<Rightarrow> Undefined)"

text \<open>
  The call \<^verbatim>\<open>execute_parallel(pool, executor)\<close> on graph \<open>g\<close> with an idle pool of
  \<open>threads\<close> workers, under schedule \<open>sched\<close>.
\<close>

definition execute_parallel_init :: "nat \<Rightarrow> ('t, 'y, 'v) DAG \<Rightarrow> ('t, 'y, 'v) pass" where
  "execute_parallel_init threads g =
     \<lparr>dag = g, thread_pool = ThreadPool_new threads, caller = Entry, trace = []\<rparr>"

definition execute_parallel ::
  "thread list \<Rightarrow> nat \<Rightarrow> ('t, 'y, 'v) DAG \<Rightarrow> ('t, 'y, 'v) pass step_result" where
  "execute_parallel sched threads g = run sched (execute_parallel_init threads g)"

subsection \<open>What the threads of a pass hold\<close>

text \<open>
  \<open>owns u w\<close>: worker \<open>w\<close> is running \<^verbatim>\<open>dispatch(u)\<close> and has not yet decremented
  \<^verbatim>\<open>remaining\<close>; \<open>executes u w\<close>: it is inside the executor for \<open>u\<close>; \<open>submits v w\<close>:
  it is about to enqueue \<^verbatim>\<open>dispatch(v)\<close>; \<open>todo u v w\<close>: how many times \<open>v\<close> is still
  to come in its loop over the successors of \<open>u\<close>.
\<close>

fun owns :: "NodeID \<Rightarrow> dispatch_pc worker \<Rightarrow> nat" where
  "owns u (Running (Executing u')) = (if u' = u then 1 else 0)"
| "owns u (Running (Resolving u' vs)) = (if u' = u then 1 else 0)"
| "owns u (Running (Enqueuing u' v vs)) = (if u' = u then 1 else 0)"
| "owns u w = 0"

fun executes :: "NodeID \<Rightarrow> dispatch_pc worker \<Rightarrow> nat" where
  "executes u (Running (Executing u')) = (if u' = u then 1 else 0)"
| "executes u w = 0"

fun submits :: "NodeID \<Rightarrow> dispatch_pc worker \<Rightarrow> nat" where
  "submits v (Running (Enqueuing u' v' vs)) = (if v' = v then 1 else 0)"
| "submits v w = 0"

fun todo :: "NodeID \<Rightarrow> NodeID \<Rightarrow> dispatch_pc worker \<Rightarrow> nat" where
  "todo u v (Running (Resolving u' vs)) = (if u' = u then count_list vs v else 0)"
| "todo u v (Running (Enqueuing u' v' vs)) = (if u' = u then count_list vs v else 0)"
| "todo u v w = 0"

fun pc_in_range :: "nat \<Rightarrow> dispatch_pc worker \<Rightarrow> bool" where
  "pc_in_range n Waiting = True"
| "pc_in_range n Exited = False"
| "pc_in_range n (Running (Executing u)) = (u < n)"
| "pc_in_range n (Running (Resolving u vs)) = (u < n \<and> (\<forall>v \<in> set vs. v < n))"
| "pc_in_range n (Running (Enqueuing u v vs)) = (u < n \<and> v < n \<and> (\<forall>v \<in> set vs. v < n))"
| "pc_in_range n (Running (Notifying u)) = (u < n)"

definition wsum :: "('w \<Rightarrow> nat) \<Rightarrow> 'w list \<Rightarrow> nat" where
  "wsum f ws = sum_list (map f ws)"

definition nsum :: "nat \<Rightarrow> (nat \<Rightarrow> nat) \<Rightarrow> nat" where
  "nsum n f = sum f {..<n}"

text \<open>
  How far the seeding loop has come, and whether a node has been released for
  dispatch: a node with static in-degree 0 by the seeding loop, any other node by its
  live counter reaching 0.
\<close>

fun seeded_upto :: "nat \<Rightarrow> caller_pc \<Rightarrow> nat" where
  "seeded_upto n Entry = 0"
| "seeded_upto n (Seeding i) = i"
| "seeded_upto n Wait = n"
| "seeded_upto n Returned = n"

definition seeded :: "('t, 'y, 'v) pass \<Rightarrow> nat" where
  "seeded s = seeded_upto (length (nodes (dag s))) (caller s)"

definition released :: "('t, 'y, 'v) pass \<Rightarrow> NodeID \<Rightarrow> bool" where
  "released s v =
     (if base_indegree (dag s) ! v = 0 then v < seeded s else current_indegree (dag s) ! v = 0)"

text \<open>
  In a trace, every start of a node comes after the executor has returned for each of
  its predecessors.
\<close>

definition ordered :: "NodeID list list \<Rightarrow> event list \<Rightarrow> bool" where
  "ordered a h \<longleftrightarrow>
     (\<forall>k < length h. \<forall>v. h ! k = Started v \<longrightarrow>
        (\<forall>u < length a. v \<in> set (a ! u) \<longrightarrow> Finished u \<in> set (take k h)))"

text \<open>
  The invariant of a pass on graph \<open>g\<close> with \<open>W\<close> workers, from \<^verbatim>\<open>reset()\<close> on.
  Structure: the graph is not changed and the pool is not stopped.  Counting: a released
  node is in exactly one place (the queue, a pending enqueue, a running dispatch, or
  completed) and an unreleased node in none; the events of the trace count what
  happened; a live counter is the static in-degree minus the decrements done; the
  remaining counter is the node count minus the completed dispatches.
\<close>

definition pass_structure :: "('t, 'y, 'v) DAG \<Rightarrow> nat \<Rightarrow> ('t, 'y, 'v) pass \<Rightarrow> bool" where
  "pass_structure g W s \<longleftrightarrow>
     nodes (dag s) = nodes g \<and> adj (dag s) = adj g \<and> base_indegree (dag s) = base_indegree g \<and>
     length (current_indegree (dag s)) = length (nodes g) \<and>
     \<not> stop (thread_pool s) \<and> length (workers (thread_pool s)) = W \<and>
     caller s \<noteq> Entry \<and> seeded s \<le> length (nodes g) \<and>
     (\<forall>v \<in> set (tasks (thread_pool s)). v < length (nodes g)) \<and>
     (\<forall>w \<in> set (workers (thread_pool s)). pc_in_range (length (nodes g)) w)"

definition pass_counts :: "('t, 'y, 'v) DAG \<Rightarrow> ('t, 'y, 'v) pass \<Rightarrow> bool" where
  "pass_counts g s \<longleftrightarrow>
     (let ws = workers (thread_pool s); q = tasks (thread_pool s); h = trace s;
          n = length (nodes g) in
      (\<forall>v < n. count_list q v + wsum (submits v) ws + wsum (owns v) ws +
                  count_list h (Completed v) = (if released s v then 1 else 0)) \<and>
      (\<forall>v. count_list h (Started v) = wsum (owns v) ws + count_list h (Completed v)) \<and>
      (\<forall>v. count_list h (Finished v) + wsum (executes v) ws =
            wsum (owns v) ws + count_list h (Completed v)) \<and>
      (\<forall>v. count_list h (Enqueued v) =
            count_list q v + wsum (owns v) ws + count_list h (Completed v)) \<and>
      (\<forall>u < n. \<forall>v. count_list h (Decremented u v) +
            (if count_list h (Finished u) = 0 then count_list (adj g ! u) v else 0) +
            wsum (todo u v) ws = count_list (adj g ! u) v) \<and>
      (\<forall>v < n. current_indegree (dag s) ! v +
            int (nsum n (\<lambda>u. count_list h (Decremented u v))) = base_indegree g ! v) \<and>
      remaining (dag s) + nsum n (\<lambda>v. count_list h (Completed v)) = n \<and>
      (caller s = Returned \<longrightarrow> remaining (dag s) = 0) \<and>
      (\<forall>v. n \<le> v \<longrightarrow> count_list h (Completed v) = 0))"

definition pass_inv :: "('t, 'y, 'v) DAG \<Rightarrow> nat \<Rightarrow> ('t, 'y, 'v) pass \<Rightarrow> bool" where
  "pass_inv g W s \<longleftrightarrow> pass_structure g W s \<and> pass_counts g s \<and> ordered (adj g) (trace s)"

text \<open>
  A bound on the steps still to come: for the calling thread, for each node whose
  dispatch has not started, and for each worker inside a dispatch.
\<close>

fun caller_steps :: "nat \<Rightarrow> caller_pc \<Rightarrow> nat" where
  "caller_steps n Entry = n + 3"
| "caller_steps n (Seeding i) = n + 2 - i"
| "caller_steps n Wait = 1"
| "caller_steps n Returned = 0"

fun worker_steps :: "NodeID list list \<Rightarrow> dispatch_pc worker \<Rightarrow> nat" where
  "worker_steps a (Running (Executing u)) = 2 * length (a ! u) + 3"
| "worker_steps a (Running (Resolving u vs)) = 2 * length vs + 2"
| "worker_steps a (Running (Enqueuing u v vs)) = 2 * length vs + 3"
| "worker_steps a (Running (Notifying u)) = 1"
| "worker_steps a w = 0"

definition steps_left :: "('t, 'y, 'v) pass \<Rightarrow> nat" where
  "steps_left s =
     caller_steps (length (nodes (dag s))) (caller s) +
     nsum (length (nodes (dag s)))
       (\<lambda>u. if count_list (trace s) (Started u) = 0 then 2 * length (adj (dag s) ! u) + 4 else 0) +
     wsum (worker_steps (adj (dag s))) (workers (thread_pool s))"

definition step_bound :: "('t, 'y, 'v) DAG \<Rightarrow> nat" where
  "step_bound g =
     length (nodes g) + 3 + nsum (length (nodes g)) (\<lambda>u. 2 * length (adj g ! u) + 4)"

text \<open>
  The sum of \<open>f\<close> over the workers other than worker \<open>i\<close> (\<open>f\<close> is 0 on a waiting
  worker).
\<close>

definition others :: "nat \<Rightarrow> (dispatch_pc worker \<Rightarrow> nat) \<Rightarrow> dispatch_pc worker list \<Rightarrow> nat" where
  "others i f ws = wsum f (ws[i := Waiting])"

text \<open>
  A complete pass over the diamond with two workers: the calling thread seeds node 0 and
  waits; worker 0 runs node 0 and releases nodes 1 and 2; the two workers run nodes 1
  and 2 side by side and both decrement the counter of node 3; worker 1 takes it from 1
  to 0 and enqueues node 3; worker 0 runs node 3, takes \<^verbatim>\<open>remaining\<close> from 1 to 0 and
  notifies; the calling thread returns.
\<close>

definition diamond_schedule :: "thread list" where
  "diamond_schedule =
     [Caller, Caller, Caller, Caller, Caller, Caller,
      Worker 0, Worker 0, Worker 0, Worker 0, Worker 0, Worker 0, Worker 0,
      Worker 0, Worker 1, Worker 0, Worker 1, Worker 0, Worker 1, Worker 1, Worker 0, Worker 1,
      Worker 0, Worker 0, Worker 0, Worker 0, Caller]"

definition diamond_trace :: "event list" where
  "diamond_trace =
     [Enqueued 0, Started 0, Finished 0, Decremented 0 1, Enqueued 1,
      Decremented 0 2, Enqueued 2, Completed 0, Started 1, Started 2,
      Finished 1, Finished 2, Decremented 1 3, Decremented 2 3,
      Enqueued 3, Completed 1, Completed 2, Started 3, Finished 3,
      Completed 3, Notified 3]"

definition diamond_final :: "(nat, nat, int) pass" where
  "diamond_final =
     \<lparr>dag = diamond\<lparr>current_indegree := [0, 0, 0, 0], remaining := 0\<rparr>,
      thread_pool = \<lparr>workers = [Waiting, Waiting], tasks = [], stop = False\<rparr>,
      caller = Returned,
      trace = diamond_trace\<rparr>"

text \<open>
  The same pass, but the calling thread tests \<^verbatim>\<open>remaining\<close> between the
  \<^verbatim>\<open>fetch_sub\<close> of worker 0 that takes it to 0 and the notification of worker 0.
\<close>

definition diamond_schedule_late :: "thread list" where
  "diamond_schedule_late =
     [Caller, Caller, Caller, Caller, Caller, Caller,
      Worker 0, Worker 0, Worker 0, Worker 0, Worker 0, Worker 0, Worker 0,
      Worker 0, Worker 1, Worker 0, Worker 1, Worker 0, Worker 1, Worker 1, Worker 0, Worker 1,
      Worker 0, Worker 0, Worker 0, Caller, Worker 0]"

text \<open>
  The graph of one node, and the state of a pass over it on a pool without workers
  after the seeding loop: \<^verbatim>\<open>dispatch(0)\<close> is in the queue and the calling thread waits.
\<close>

definition single :: "(nat, nat, int) DAG" where
  "single = snd (add_node 0 (DAG_default 0))"

definition single_stuck :: "(nat, nat, int) pass" where
  "single_stuck =
     \<lparr>dag = single\<lparr>current_indegree := [0], remaining := 1\<rparr>,
      thread_pool = \<lparr>workers = [], tasks = [0], stop = False\<rparr>,
      caller = Wait,
      trace = [Enqueued 0]\<rparr>"

text \<open>
  What holds all through a pass on a pool without workers over a graph \<open>g\<close> that has
  a node: no executor call has started, the call has not returned, and from
  \<^verbatim>\<open>reset()\<close> on \<^verbatim>\<open>remaining\<close> is the node count.
\<close>

definition starved :: "('t, 'y, 'v) DAG \<Rightarrow> ('t, 'y, 'v) pass \<Rightarrow> bool" where
  "starved g s \<longleftrightarrow>
     workers (thread_pool s) = [] \<and> nodes (dag s) = nodes g \<and> trace s \<in> lists (range Enqueued) \<and>
     caller s \<noteq> Returned \<and> (caller s = Entry \<or> remaining (dag s) = length (nodes g))"

section \<open>Properties of the graph store\<close>

lemma add_node_record:
  "add_node d \<lparr>nodes = ns, adj = a, base_indegree = b, current_indegree = c, remaining = r\<rparr> =
     (length ns, \<lparr>nodes = ns @ [\<lparr>data = d, output_any = Any_empty\<rparr>], adj = a @ [[]],
        base_indegree = b @ [0], current_indegree = c, remaining = r\<rparr>)"
  by (simp add: add_node_def)

lemma add_edge_record:
  "add_edge frm to \<lparr>nodes = ns, adj = a, base_indegree = b, current_indegree = c, remaining = r\<rparr> =
     (if frm \<ge> length ns \<or> to \<ge> length ns
      then Inr \<lparr>nodes = ns, adj = a, base_indegree = b, current_indegree = c, remaining = r\<rparr>
      else if b ! to < INT_MAX
      then Inr \<lparr>nodes = ns, adj = a[frm := a ! frm @ [to]], base_indegree = b[to := b ! to + 1],
        current_indegree = c, remaining = r\<rparr>
      else Inl Signed_overflow)"
  by (simp add: add_edge_def)

lemma diamond_eq:
  "diamond =
     \<lparr>nodes = [\<lparr>data = 0, output_any = Any_empty\<rparr>,
               \<lparr>data = 1, output_any = Any_empty\<rparr>,
               \<lparr>data = 2, output_any = Any_empty\<rparr>,
               \<lparr>data = 3, output_any = Any_empty\<rparr>],
      adj = [[1, 2], [3], [3], []],
      base_indegree = [0, 1, 1, 2],
      current_indegree = [],
      remaining = 0\<rparr>"
  by (simp add: diamond_def)

lemma diamond_built: "do_calls diamond_calls (DAG_default 0) = Inr diamond"
  by (simp add: diamond_calls_def diamond_def DAG_default_def add_node_record add_edge_record
      INT_MAX_def)

lemma wf_dag_default: "wf_dag (DAG_default r)"
  by (simp add: wf_dag_def DAG_default_def)

lemma wf_dag_add_node:
  assumes "wf_dag g"
  shows "wf_dag (snd (add_node d g))"
proof -
  have "length (nodes g) \<notin> set (concat (adj g))"
    using assms by (auto simp: wf_dag_def)
  then have "count_list (concat (adj g)) (length (nodes g)) = 0"
    by (simp add: count_list_0_iff)
  moreover have "(0 :: int) \<le> INT_MAX" by (simp add: INT_MAX_def)
  ultimately show ?thesis
    using assms
    by (auto simp: wf_dag_def add_node_def Let_def nth_append less_Suc_eq)
qed

lemma concat_update_append:
  "i < length xss \<Longrightarrow>
   mset (concat (xss[i := xss ! i @ [x]])) = add_mset x (mset (concat xss))"
proof (induction xss arbitrary: i)
  case Nil
  then show ?case by simp
next
  case (Cons ys xss)
  then show ?case by (cases i) simp_all
qed

lemma count_list_mset: "count_list xs x = count (mset xs) x"
  by (induction xs) simp_all

lemma wf_dag_add_edge:
  assumes "wf_dag g" and "add_edge frm to g = Inr g'"
  shows "wf_dag g'"
proof (cases "frm \<ge> length (nodes g) \<or> to \<ge> length (nodes g)")
  case True
  then show ?thesis using assms by (simp add: add_edge_def)
next
  case False
  then have lt: "frm < length (adj g)" "to < length (base_indegree g)"
    "frm < length (nodes g)" "to < length (nodes g)"
    using assms by (simp_all add: wf_dag_def)
  have room: "base_indegree g ! to < INT_MAX"
    and g': "g' = g\<lparr>adj := (adj g)[frm := adj g ! frm @ [to]],
      base_indegree := (base_indegree g)[to := base_indegree g ! to + 1]\<rparr>"
    using False assms(2) by (auto simp: add_edge_def split: if_splits)
  have succ: "\<forall>vs \<in> set ((adj g)[frm := adj g ! frm @ [to]]). \<forall>v \<in> set vs. v < length (nodes g)"
  proof (intro ballI)
    fix vs v assume vs: "vs \<in> set ((adj g)[frm := adj g ! frm @ [to]])" and v: "v \<in> set vs"
    from vs have "vs = adj g ! frm @ [to] \<or> vs \<in> set (adj g)"
      using set_update_subset_insert by fastforce
    moreover have "adj g ! frm \<in> set (adj g)" using lt by simp
    moreover have "\<forall>vs \<in> set (adj g). \<forall>v \<in> set vs. v < length (nodes g)"
      using assms by (simp add: wf_dag_def)
    ultimately show "v < length (nodes g)"
      using v lt(4) by auto
  qed
  have cnt: "count_list (concat ((adj g)[frm := adj g ! frm @ [to]])) v =
      count_list (concat (adj g)) v + (if v = to then 1 else 0)" for v
    using concat_update_append[OF lt(1), of to] by (simp add: count_list_mset)
  have base: "\<forall>v \<in> set [0..<length (nodes g)].
      (base_indegree g)[to := base_indegree g ! to + 1] ! v =
      int (count_list (concat ((adj g)[frm := adj g ! frm @ [to]])) v)"
    using assms lt by (simp add: wf_dag_def cnt nth_list_update)
  have bound: "\<forall>b \<in> set ((base_indegree g)[to := base_indegree g ! to + 1]). b \<le> INT_MAX"
  proof
    fix b assume "b \<in> set ((base_indegree g)[to := base_indegree g ! to + 1])"
    then have "b = base_indegree g ! to + 1 \<or> b \<in> set (base_indegree g)"
      using set_update_subset_insert by fastforce
    then show "b \<le> INT_MAX"
      using room assms(1) by (auto simp: wf_dag_def)
  qed
  show ?thesis
    using assms(1) succ base bound by (simp add: wf_dag_def g')
qed

lemma wf_dag_diamond: "wf_dag diamond"
  by (simp add: diamond_eq wf_dag_def INT_MAX_def)

lemma count_list_replicate: "count_list (replicate k x) y = (if x = y then k else 0)"
  by (induction k) auto

lemma wf_dag_saturated: "wf_dag saturated"
proof -
  have "(0 :: int) \<le> INT_MAX" by (simp add: INT_MAX_def)
  then show ?thesis
    by (simp add: saturated_def wf_dag_def count_list_replicate upt_rec[of 0 2] upt_rec[of 1 2])
qed

lemma do_calls_append:
  "do_calls (cs @ ds) g = (case do_calls cs g of Inl e \<Rightarrow> Inl e | Inr g' \<Rightarrow> do_calls ds g')"
  by (induction cs arbitrary: g) (simp_all split: sum.splits)

lemma parallel_edges_built:
  "b + int k \<le> INT_MAX \<Longrightarrow>
   do_calls (replicate k (Add_edge 0 1))
     \<lparr>nodes = [n0, n1], adj = [a, []], base_indegree = [0, b], current_indegree = c,
      remaining = r\<rparr> =
   Inr \<lparr>nodes = [n0, n1], adj = [a @ replicate k 1, []], base_indegree = [0, b + int k],
      current_indegree = c, remaining = r\<rparr>"
proof (induction k arbitrary: a b)
  case 0
  then show ?case by simp
next
  case (Suc k)
  have "b < INT_MAX" using Suc.prems by simp
  moreover have "b + 1 + int k \<le> INT_MAX" using Suc.prems by simp
  ultimately show ?case
    using Suc.IH[of "b + 1" "a @ [1]"]
    by (simp add: add_edge_record replicate_app_Cons_same add.assoc)
qed

lemma saturated_built:
  "do_calls ([Add_node 0, Add_node 1] @ replicate (nat INT_MAX) (Add_edge 0 1)) (DAG_default 0) =
     Inr saturated"
proof -
  have "(0 :: int) \<le> INT_MAX" by (simp add: INT_MAX_def)
  then have "0 + int (nat INT_MAX) \<le> INT_MAX" by simp
  note b = parallel_edges_built[OF this, where a = "[]"]
  have "do_calls [Add_node 0, Add_node 1] (DAG_default 0 :: (nat, nat, int) DAG) =
      Inr \<lparr>nodes = [\<lparr>data = 0, output_any = Any_empty\<rparr>, \<lparr>data = 1, output_any = Any_empty\<rparr>],
        adj = [[], []], base_indegree = [0, 0], current_indegree = [], remaining = 0\<rparr>"
    by (simp add: DAG_default_def add_node_record)
  then show ?thesis
    using \<open>0 \<le> INT_MAX\<close> by (simp only: do_calls_append sum.case b) (simp add: saturated_def)
qed

lemma fold_store:
  "k \<le> length c0 \<Longrightarrow>
   fold (\<lambda>i c. c[i := f i]) [0..<k] c0 = map f [0..<k] @ drop k c0"
proof (induction k)
  case 0
  then show ?case by simp
next
  case (Suc k)
  then have "fold (\<lambda>i c. c[i := f i]) [0..<Suc k] c0 = (map f [0..<k] @ drop k c0)[k := f k]"
    by simp
  also have "\<dots> = map f [0..<k] @ (drop k c0)[0 := f k]"
    by (simp add: list_update_append)
  also have "(drop k c0)[0 := f k] = f k # drop (Suc k) c0"
    using Suc.prems by (simp add: Cons_nth_drop_Suc[symmetric])
  finally show ?case by simp
qed

lemma reset_eq:
  "reset g = g\<lparr>current_indegree := map (\<lambda>i. base_indegree g ! i) [0..<length (nodes g)],
              remaining := length (nodes g)\<rparr>"
proof -
  let ?n = "length (nodes g)"
  let ?c0 = "if length (current_indegree g) \<noteq> ?n then replicate ?n 0 else current_indegree g"
  have "length ?c0 = ?n" by simp
  then have "fold (\<lambda>i c. c[i := base_indegree g ! i]) [0..<?n] ?c0 =
      map (\<lambda>i. base_indegree g ! i) [0..<?n]"
    using fold_store[of ?n ?c0 "\<lambda>i. base_indegree g ! i"] by simp
  then show ?thesis by (simp add: reset_def Let_def)
qed

lemma reset_wf_current:
  "length (base_indegree g) = length (nodes g) \<Longrightarrow>
   current_indegree (reset g) = base_indegree g"
proof -
  assume "length (base_indegree g) = length (nodes g)"
  then have "map (\<lambda>i. base_indegree g ! i) [0..<length (nodes g)] = base_indegree g"
    using map_nth[of "base_indegree g"] by simp
  then show ?thesis by (simp add: reset_eq)
qed


subsection \<open>\<^verbatim>\<open>reset\<close>\<close>

text \<open>
  Claim C4.  For every graph state, \<^verbatim>\<open>reset()\<close> leaves one live counter per node, sets
  the live in-degree counter of each node to that node's static in-degree and the global
  remaining counter to the node count, and leaves the graph structure alone.  The result
  does not depend on the run-state before the call (any counters \<open>c\<close>, any remaining
  count \<open>r\<close>), and a second call changes nothing: \<^verbatim>\<open>reset\<close> is idempotent.
\<close>

theorem reset_sets_counters_idempotent:
  "length (current_indegree (reset g)) = length (nodes g) \<and>
   (\<forall>i < length (nodes g). current_indegree (reset g) ! i = base_indegree g ! i) \<and>
   remaining (reset g) = length (nodes g) \<and>
   nodes (reset g) = nodes g \<and> adj (reset g) = adj g \<and>
   base_indegree (reset g) = base_indegree g \<and>
   reset (g\<lparr>current_indegree := c, remaining := r\<rparr>) = reset g \<and>
   reset (reset g) = reset g"
  by (simp add: reset_eq)

theorem reset_sets_counters_idempotent_witness:
  "length (current_indegree (reset diamond)) = 4 \<and>
   current_indegree (reset diamond) = [0, 1, 1, 2] \<and>
   current_indegree (reset diamond) ! 3 = base_indegree diamond ! 3 \<and>
   remaining (reset diamond) = 4 \<and>
   reset (diamond\<lparr>current_indegree := [7, 7], remaining := 9\<rparr>) = reset diamond \<and>
   reset (reset diamond) = reset diamond"
proof -
  have "current_indegree (reset diamond) = [0, 1, 1, 2]"
    using reset_wf_current[of diamond] by (simp add: diamond_eq)
  then show ?thesis
    using reset_sets_counters_idempotent[where g = diamond and c = "[7, 7]" and r = 9]
    by (simp add: diamond_eq)
qed

subsection \<open>\<^verbatim>\<open>add_edge\<close>\<close>

text \<open>
  Claim C5 (as it holds of the code).  On a graph that satisfies the class invariant,
  \<^verbatim>\<open>add_edge(from, to)\<close> with \<open>from\<close> or \<open>to\<close> at or past the node count returns the
  graph exactly as it was (adjacency lists, static in-degrees, node count and everything
  else).  With both handles in range and the static in-degree of \<open>to\<close> below
  \<open>INT_MAX\<close>, it appends \<open>to\<close> to the successor list of \<open>from\<close>, adds one to the
  static in-degree of \<open>to\<close>, and changes no other successor list, no other in-degree,
  no node and no run-state.  With both handles in range and the static in-degree of
  \<open>to\<close> at \<open>INT_MAX\<close>, the increment overflows and the call has no defined result.
\<close>

theorem add_edge_noop_or_append:
  assumes "wf_dag g"
  shows "(frm \<ge> length (nodes g) \<or> to \<ge> length (nodes g) \<longrightarrow> add_edge frm to g = Inr g) \<and>
         (frm < length (nodes g) \<and> to < length (nodes g) \<and> base_indegree g ! to < INT_MAX \<longrightarrow>
            (\<exists>g'. add_edge frm to g = Inr g' \<and>
               adj g' ! frm = adj g ! frm @ [to] \<and>
               (\<forall>u. u \<noteq> frm \<longrightarrow> adj g' ! u = adj g ! u) \<and>
               length (adj g') = length (adj g) \<and>
               base_indegree g' ! to = base_indegree g ! to + 1 \<and>
               (\<forall>v. v \<noteq> to \<longrightarrow> base_indegree g' ! v = base_indegree g ! v) \<and>
               length (base_indegree g') = length (base_indegree g) \<and>
               nodes g' = nodes g \<and>
               current_indegree g' = current_indegree g \<and>
               remaining g' = remaining g)) \<and>
         (frm < length (nodes g) \<and> to < length (nodes g) \<and> base_indegree g ! to = INT_MAX \<longrightarrow>
            add_edge frm to g = Inl Signed_overflow)"
  using assms by (simp add: add_edge_def wf_dag_def)

theorem add_edge_noop_or_append_witness:
  "wf_dag diamond \<and> add_edge 4 0 diamond = Inr diamond \<and> add_edge 0 4 diamond = Inr diamond \<and>
   base_indegree diamond ! 2 < INT_MAX \<and>
   add_edge 1 2 diamond =
     Inr (diamond\<lparr>adj := [[1, 2], [3, 2], [3], []], base_indegree := [0, 1, 2, 2]\<rparr>) \<and>
   wf_dag saturated \<and> base_indegree saturated ! 1 = INT_MAX \<and>
   add_edge 0 1 saturated = Inl Signed_overflow"
proof -
  have a: "add_edge 1 2 diamond =
      Inr (diamond\<lparr>adj := [[1, 2], [3, 2], [3], []], base_indegree := [0, 1, 2, 2]\<rparr>)"
    "base_indegree diamond ! 2 < INT_MAX"
    by (simp_all add: diamond_eq add_edge_record INT_MAX_def)
  have b: "base_indegree saturated ! 1 = INT_MAX" "length (nodes saturated) = 2"
    by (simp_all add: saturated_def)
  show ?thesis
    using add_edge_noop_or_append[OF wf_dag_diamond, where frm = 4 and to = 0]
      add_edge_noop_or_append[OF wf_dag_diamond, where frm = 0 and to = 4]
      add_edge_noop_or_append[OF wf_dag_saturated, where frm = 0 and to = 1]
      wf_dag_diamond wf_dag_saturated a b
    by (simp add: diamond_eq)
qed

text \<open>
  On the graph with \<open>INT_MAX\<close> edges from node 0 to node 1, both handles of
  \<^verbatim>\<open>add_edge(0, 1)\<close> are in range, and the call does not add one to the in-degree of
  node 1: it overflows.
\<close>

theorem add_edge_overflows_at_int_max:
  "wf_dag saturated \<and> 0 < length (nodes saturated) \<and> 1 < length (nodes saturated) \<and>
   base_indegree saturated ! 1 = 2147483647 \<and>
   add_edge 0 1 saturated = Inl Signed_overflow"
  by (simp add: wf_dag_saturated) (simp add: saturated_def add_edge_record, simp add: INT_MAX_def)

subsection \<open>The port accessors\<close>

lemma get_after_set:
  "set_port_value nid (Any_holds ty v) g = Inr g' \<Longrightarrow> get_port_value ty nid g' = Inr v"
  by (auto simp: set_port_value_def get_port_value_def split: if_splits)

lemma do_call_unwritten:
  assumes "do_call c g = Inr g'" and "\<not> writes_port nid c"
    and "nid < length (nodes g) \<longrightarrow> output_any (nodes g ! nid) = Any_empty"
    and "nid < length (nodes g')"
  shows "output_any (nodes g' ! nid) = Any_empty"
proof (cases c)
  case (Add_node d)
  then show ?thesis
    using assms by (auto simp: add_node_def nth_append)
next
  case (Add_edge frm to)
  then show ?thesis
    using assms by (auto simp: add_edge_def split: if_splits)
next
  case Reset
  then show ?thesis
    using assms by (auto simp: reset_eq)
next
  case (Set_port_value nid' a)
  then show ?thesis
    using assms by (auto simp: set_port_value_def nth_list_update split: if_splits)
qed

lemma do_call_length:
  "do_call c g = Inr g' \<Longrightarrow> length (nodes g) \<le> length (nodes g')"
  by (cases c) (auto simp: add_node_def add_edge_def reset_eq set_port_value_def split: if_splits)

lemma do_calls_unwritten:
  assumes "do_calls cs g = Inr g'" and "\<forall>c \<in> set cs. \<not> writes_port nid c"
    and "nid < length (nodes g) \<longrightarrow> output_any (nodes g ! nid) = Any_empty"
    and "nid < length (nodes g')"
  shows "output_any (nodes g' ! nid) = Any_empty"
  using assms
proof (induction cs arbitrary: g)
  case Nil
  then show ?case by simp
next
  case (Cons c cs)
  from Cons.prems(1) obtain g1 where c: "do_call c g = Inr g1" and cs: "do_calls cs g1 = Inr g'"
    by (auto split: sum.splits)
  have "nid < length (nodes g1) \<longrightarrow> output_any (nodes g1 ! nid) = Any_empty"
    using do_call_unwritten[OF c] Cons.prems(2,3) by simp
  then show ?case
    using Cons.IH[OF cs] Cons.prems(2,4) by simp
qed

text \<open>
  Claim C6.  Take any graph built from the empty graph by any sequence of calls
  (\<^verbatim>\<open>add_node\<close>, \<^verbatim>\<open>add_edge\<close>, \<^verbatim>\<open>reset\<close>, \<^verbatim>\<open>set_port_value\<close>) and any in-range
  handle.  If no \<^verbatim>\<open>set_port_value\<close> of the sequence was for that node,
  \<^verbatim>\<open>get_port_value<V>\<close> ends in the error branch \<^verbatim>\<open>std::bad_any_cast\<close>; so it does on
  any graph whose slot for the node is empty, and when the slot holds an object whose
  type is not \<open>V\<close> (in particular right after such an object was stored).  In each of
  these cases no value of type \<open>V\<close> is returned.
\<close>

theorem get_port_value_unset_or_mismatch:
  "(do_calls cs (DAG_default r) = Inr g \<and> (\<forall>c \<in> set cs. \<not> writes_port nid c) \<and>
      nid < length (nodes g)
      \<longrightarrow> get_port_value ty nid g = Inl Bad_any_cast) \<and>
   (nid < length (nodes g) \<and> output_any (nodes g ! nid) = Any_empty
      \<longrightarrow> get_port_value ty nid g = Inl Bad_any_cast) \<and>
   (nid < length (nodes g) \<and> output_any (nodes g ! nid) = Any_holds ty' v \<and> ty' \<noteq> ty
      \<longrightarrow> get_port_value ty nid g = Inl Bad_any_cast \<and>
          (\<forall>x. get_port_value ty nid g \<noteq> Inr x)) \<and>
   (set_port_value nid (Any_holds ty' v) g = Inr g' \<and> ty' \<noteq> ty
      \<longrightarrow> get_port_value ty nid g' = Inl Bad_any_cast)"
proof -
  have "get_port_value ty nid g = Inl Bad_any_cast"
    if "do_calls cs (DAG_default r) = Inr g" "\<forall>c \<in> set cs. \<not> writes_port nid c"
      "nid < length (nodes g)"
  proof -
    have "output_any (nodes g ! nid) = Any_empty"
      using do_calls_unwritten[OF that(1,2) _ that(3)] by (simp add: DAG_default_def)
    then show ?thesis using that(3) by (simp add: get_port_value_def)
  qed
  moreover have "get_port_value ty nid g' = Inl Bad_any_cast"
    if "set_port_value nid (Any_holds ty' v) g = Inr g'" "ty' \<noteq> ty"
    using that by (auto simp: set_port_value_def get_port_value_def split: if_splits)
  ultimately show ?thesis
    by (auto simp: get_port_value_def)
qed

theorem get_port_value_unset_or_mismatch_witness:
  "do_calls [Add_node 0, Add_node 1, Add_edge 0 1, Set_port_value 0 (Any_holds 0 100), Reset]
     (DAG_default 0 :: (nat, nat, int) DAG) =
     Inr \<lparr>nodes = [\<lparr>data = 0, output_any = Any_holds 0 100\<rparr>, \<lparr>data = 1, output_any = Any_empty\<rparr>],
          adj = [[1], []], base_indegree = [0, 1], current_indegree = [0, 1],
          remaining = 2\<rparr> \<and>
   get_port_value (0::nat)  1
     \<lparr>nodes = [\<lparr>data = 0::nat, output_any = Any_holds 0 (100::int)\<rparr>,
               \<lparr>data = 1, output_any = Any_empty\<rparr>],
      adj = [[1], []], base_indegree = [0, 1], current_indegree = [0, 1],
      remaining = 2\<rparr> = Inl Bad_any_cast \<and>
   get_port_value (1::nat) 0
     \<lparr>nodes = [\<lparr>data = 0::nat, output_any = Any_holds 0 (100::int)\<rparr>,
               \<lparr>data = 1, output_any = Any_empty\<rparr>],
      adj = [[1], []], base_indegree = [0, 1], current_indegree = [0, 1],
      remaining = 2\<rparr> = Inl Bad_any_cast"
proof -
  let ?cs = "[Add_node 0, Add_node 1, Add_edge 0 1, Set_port_value 0 (Any_holds 0 100), Reset]
    :: (nat, nat, int) call list"
  let ?g = "\<lparr>nodes = [\<lparr>data = 0::nat, output_any = Any_holds (0::nat) (100::int)\<rparr>,
               \<lparr>data = 1, output_any = Any_empty\<rparr>],
      adj = [[1], []], base_indegree = [0, 1], current_indegree = [0, 1],
      remaining = 2\<rparr>"
  have run: "do_calls ?cs (DAG_default 0) = Inr ?g"
    by (simp add: DAG_default_def add_node_record add_edge_record set_port_value_def reset_eq
        INT_MAX_def)
  have unset: "get_port_value 0 1 ?g = Inl Bad_any_cast"
    using get_port_value_unset_or_mismatch[where cs = ?cs and r = 0 and g = ?g and nid = 1
        and ty = 0] run
    by simp
  have mismatch: "get_port_value 1 0 ?g = Inl Bad_any_cast"
    using get_port_value_unset_or_mismatch[where g = ?g and nid = 0 and ty = 1 and ty' = 0
        and v = 100]
    by simp
  show ?thesis using run unset mismatch by simp
qed

text \<open>
  Claim C10.  Unlike \<^verbatim>\<open>add_edge\<close>, which returns the graph unchanged for a handle at
  or past the node count, \<^verbatim>\<open>set_port_value\<close> and \<^verbatim>\<open>get_port_value\<close> index the node
  vector with no check: each of them has the out-of-bounds outcome exactly when the
  handle is at or past the node count, so a handle below the node count is necessary
  (and sufficient) for the indexing of either to be defined.
\<close>

theorem port_accessors_unguarded:
  "(set_port_value nid a g = Inl Index_out_of_bounds \<longleftrightarrow> length (nodes g) \<le> nid) \<and>
   (get_port_value ty nid g = Inl Index_out_of_bounds \<longleftrightarrow> length (nodes g) \<le> nid) \<and>
   (length (nodes g) \<le> nid \<longrightarrow> add_edge nid to g = Inr g \<and> add_edge frm nid g = Inr g)"
proof -
  have "any_cast ty x \<noteq> Inl Index_out_of_bounds" for x :: "('b, 'c) any"
    by (cases x) simp_all
  then show ?thesis
    by (auto simp: set_port_value_def get_port_value_def add_edge_def)
qed

theorem port_accessors_unguarded_witness:
  "set_port_value 4 (Any_holds 0 1) diamond = Inl Index_out_of_bounds \<and>
   get_port_value 0 4 diamond = (Inl Index_out_of_bounds :: error + int) \<and>
   add_edge 4 0 diamond = Inr diamond \<and>
   set_port_value 3 (Any_holds 0 1) diamond \<noteq> Inl Index_out_of_bounds \<and>
   get_port_value 0 3 diamond \<noteq> (Inl Index_out_of_bounds :: error + int)"
  using port_accessors_unguarded[where g = diamond and nid = 4 and a = "Any_holds 0 1"
      and ty = 0 and to = 0 and frm = 0]
    port_accessors_unguarded[where g = diamond and nid = 3 and a = "Any_holds 0 1"
      and ty = 0 and to = 0 and frm = 0]
  by (simp add: diamond_eq)

subsection \<open>\<^verbatim>\<open>operator[]\<close>\<close>

text \<open>
  Claim C7 (not met by the code).  The subscript operator is documented as access to the
  node's payload and is declared to return \<^verbatim>\<open>T&\<close>, but its body returns
  \<^verbatim>\<open>nodes[id]\<close>: the whole node record, payload together with output slot, not the
  payload that was given to \<^verbatim>\<open>add_node\<close>.  At the first node of a graph:
\<close>

theorem operator_index_yields_node:
  "operator_index (snd (add_node d (DAG_default r))) 0 = Inr \<lparr>data = d, output_any = Any_empty\<rparr>"
  by (simp add: operator_index_def add_node_def DAG_default_def)

section \<open>Properties of the thread pool\<close>

text \<open>
  Claim C8 (as it holds of the code).  The number of workers is the constructor
  argument, and what \<^verbatim>\<open>hardware_concurrency()\<close> returns when no argument is given.
  There is no lower bound: the pool has at least one worker exactly when that number is
  at least one.
\<close>

theorem ThreadPool_worker_count:
  "length (workers (ThreadPool_ctor hc arg)) = (case arg of None \<Rightarrow> hc | Some threads \<Rightarrow> threads) \<and>
   (1 \<le> length (workers (ThreadPool_ctor hc arg)) \<longleftrightarrow>
      1 \<le> (case arg of None \<Rightarrow> hc | Some threads \<Rightarrow> threads))"
  by (simp add: ThreadPool_ctor_def ThreadPool_new_def)

text \<open>A pool constructed with 0 has no worker, whatever the hardware parallelism.\<close>

theorem ThreadPool_zero_workers:
  "\<not> 1 \<le> length (workers (ThreadPool_ctor 8 (Some 0) :: (NodeID, NodeID) ThreadPool))"
  by (simp add: ThreadPool_ctor_def ThreadPool_new_def)


subsection \<open>Shutdown\<close>

lemma started_by_snoc:
  "started_by i (h @ [e]) =
     started_by i h @ (case e of Task_started j f \<Rightarrow> if j = i then [f] else [] | _ \<Rightarrow> [])"
  by (induction i h rule: started_by.induct) (auto split: pool_event.splits)

lemma finished_by_snoc:
  "finished_by i (h @ [e]) =
     finished_by i h @ (case e of Task_finished j f \<Rightarrow> if j = i then [f] else [] | _ \<Rightarrow> [])"
  by (induction i h rule: finished_by.induct) (auto split: pool_event.splits)

lemma pool_inv_init: "pool_inv (pool_init n)"
  by (simp add: pool_inv_def pool_init_def ThreadPool_new_def)

lemma pool_inv_step:
  assumes "pool_inv s" and "pool_step a s = Next s'"
  shows "pool_inv s'"
proof (cases a)
  case (Call_enqueue f)
  then show ?thesis
    using assms
    by (auto simp: pool_inv_def enqueue_def started_by_snoc finished_by_snoc split: if_splits)
next
  case Destructor_step
  then show ?thesis
    using assms
    by (auto simp: pool_inv_def started_by_snoc finished_by_snoc split: if_splits dtor_pc.splits)
next
  case (Worker_step i)
  then show ?thesis
    using assms
    by (auto simp: pool_inv_def worker_fetch_def set_worker_def started_by_snoc finished_by_snoc
        nth_list_update
        split: if_splits worker.splits step_result.splits fetched.splits)
qed

lemma pool_inv_run:
  "pool_inv s \<Longrightarrow> pool_run acts s = Next s' \<Longrightarrow> pool_inv s'"
proof (induction acts arbitrary: s)
  case Nil
  then show ?case by simp
next
  case (Cons a acts)
  then show ?case
    by (auto split: step_result.splits dest: pool_inv_step)
qed

text \<open>
  Claim C9 (as it holds of the code).  In every state the pool can reach, by any
  interleaving of \<^verbatim>\<open>enqueue\<close> calls, worker steps and the destructor: once
  \<^verbatim>\<open>stop\<close> is set, a waiting worker that finds a task in the queue takes the front
  task and runs it, whenever that task was enqueued; a worker leaves its loop only
  from the waiting state, with \<^verbatim>\<open>stop\<close> set and the queue empty; and a worker that
  has been joined has left its loop and has run every task it started to completion.
\<close>

theorem pool_shutdown_drains_then_joins:
  assumes "pool_run acts (pool_init n) = Next s"
  shows "(\<forall>i f fs. i < length (workers (pool s)) \<and> workers (pool s) ! i = Waiting \<and>
             stop (pool s) \<and> tasks (pool s) = f # fs \<longrightarrow>
           pool_step (Worker_step i) s =
             Next (s\<lparr>pool := set_worker i (Running f) ((pool s)\<lparr>tasks := fs\<rparr>),
                    history := history s @ [Task_started i f]\<rparr>)) \<and>
         (\<forall>i s'. pool_step (Worker_step i) s = Next s' \<and> workers (pool s') ! i = Exited \<longrightarrow>
            workers (pool s) ! i = Waiting \<and> stop (pool s) \<and> tasks (pool s) = []) \<and>
         (\<forall>i. Worker_joined i \<in> set (history s) \<longrightarrow>
            workers (pool s) ! i = Exited \<and>
            started_by i (history s) = finished_by i (history s))"
proof -
  have inv: "pool_inv s"
    using pool_inv_run[OF pool_inv_init assms] .
  have a: "\<forall>i f fs. i < length (workers (pool s)) \<and> workers (pool s) ! i = Waiting \<and>
             stop (pool s) \<and> tasks (pool s) = f # fs \<longrightarrow>
           pool_step (Worker_step i) s =
             Next (s\<lparr>pool := set_worker i (Running f) ((pool s)\<lparr>tasks := fs\<rparr>),
                    history := history s @ [Task_started i f]\<rparr>)"
    by (simp add: worker_fetch_def)
  have b: "\<forall>i s'. pool_step (Worker_step i) s = Next s' \<and> workers (pool s') ! i = Exited \<longrightarrow>
            workers (pool s) ! i = Waiting \<and> stop (pool s) \<and> tasks (pool s) = []"
    by (auto simp: worker_fetch_def set_worker_def
        split: if_splits worker.splits step_result.splits fetched.splits)
  have c: "\<forall>i. Worker_joined i \<in> set (history s) \<longrightarrow>
            workers (pool s) ! i = Exited \<and>
            started_by i (history s) = finished_by i (history s)"
    using inv by (auto simp: pool_inv_def)
  show ?thesis using a b c by blast
qed

text \<open>
  One worker runs task 1; the destructor signals \<^verbatim>\<open>stop\<close>; task 2 is enqueued after
  the signal; the worker finishes task 1, finds task 2 in the queue and starts it.
\<close>

theorem pool_runs_task_enqueued_after_stop:
  "pool_run [Call_enqueue 1, Worker_step 0, Destructor_step, Call_enqueue 2,
       Worker_step 0, Worker_step 0] (pool_init 1) =
     Next \<lparr>pool = \<lparr>workers = [Running (2::nat)], tasks = [], stop = True\<rparr>, dtor = Joining 0,
       history = [Task_enqueued 1, Task_started 0 1, Stop_signalled, Task_enqueued 2,
         Task_finished 0 1, Task_started 0 2]\<rparr> \<and>
   late_tasks [Task_enqueued 1, Task_started 0 1, Stop_signalled, Task_enqueued (2::nat),
         Task_finished 0 1, Task_started 0 2] = [2] \<and>
   started_tasks [Task_enqueued 1, Task_started 0 1, Stop_signalled, Task_enqueued (2::nat),
         Task_finished 0 1, Task_started 0 2] = [1, 2]"
  by (simp add: pool_init_def ThreadPool_new_def enqueue_def worker_fetch_def set_worker_def)

theorem pool_shutdown_drains_then_joins_witness:
  "pool_run [Destructor_step, Call_enqueue 2] (pool_init 1) =
     Next \<lparr>pool = \<lparr>workers = [Waiting], tasks = [2::nat], stop = True\<rparr>, dtor = Joining 0,
       history = [Stop_signalled, Task_enqueued 2]\<rparr> \<and>
   pool_step (Worker_step 0)
     \<lparr>pool = \<lparr>workers = [Waiting], tasks = [2::nat], stop = True\<rparr>, dtor = Joining 0,
       history = [Stop_signalled, Task_enqueued 2]\<rparr> =
     Next \<lparr>pool = \<lparr>workers = [Running 2], tasks = [], stop = True\<rparr>, dtor = Joining 0,
       history = [Stop_signalled, Task_enqueued 2, Task_started 0 2]\<rparr> \<and>
   pool_run [Call_enqueue 1, Worker_step 0, Destructor_step, Call_enqueue 2, Worker_step 0,
       Worker_step 0, Worker_step 0, Worker_step 0, Destructor_step] (pool_init 1) =
     Next \<lparr>pool = \<lparr>workers = [Exited], tasks = [], stop = True\<rparr>, dtor = Joining 1,
       history = [Task_enqueued 1, Task_started 0 1, Stop_signalled, Task_enqueued (2::nat),
         Task_finished 0 1, Task_started 0 2, Task_finished 0 2, Worker_exited 0,
         Worker_joined 0]\<rparr> \<and>
   started_by 0 [Task_enqueued 1, Task_started 0 1, Stop_signalled, Task_enqueued (2::nat),
         Task_finished 0 1, Task_started 0 2, Task_finished 0 2, Worker_exited 0,
         Worker_joined 0] =
   finished_by 0 [Task_enqueued 1, Task_started 0 1, Stop_signalled, Task_enqueued (2::nat),
         Task_finished 0 1, Task_started 0 2, Task_finished 0 2, Worker_exited 0,
         Worker_joined 0]"
proof -
  let ?s1 = "\<lparr>pool = \<lparr>workers = [Waiting], tasks = [2::nat], stop = True\<rparr>, dtor = Joining 0,
       history = [Stop_signalled, Task_enqueued 2]\<rparr>"
  let ?s2 = "\<lparr>pool = \<lparr>workers = [Exited], tasks = [], stop = True\<rparr>, dtor = Joining 1,
       history = [Task_enqueued 1, Task_started 0 1, Stop_signalled, Task_enqueued (2::nat),
         Task_finished 0 1, Task_started 0 2, Task_finished 0 2, Worker_exited 0,
         Worker_joined 0]\<rparr>"
  have r1: "pool_run [Destructor_step, Call_enqueue 2] (pool_init 1) = Next ?s1"
    by (simp add: pool_init_def ThreadPool_new_def enqueue_def)
  have r2: "pool_run [Call_enqueue 1, Worker_step 0, Destructor_step, Call_enqueue 2,
       Worker_step 0, Worker_step 0, Worker_step 0, Worker_step 0, Destructor_step]
       (pool_init 1) = Next ?s2"
    by (simp add: pool_init_def ThreadPool_new_def enqueue_def worker_fetch_def set_worker_def)
  show ?thesis
    using pool_shutdown_drains_then_joins[OF r1] pool_shutdown_drains_then_joins[OF r2] r1 r2
    by (simp add: set_worker_def)
qed


section \<open>Properties of a pass\<close>

subsection \<open>Sums over workers and over nodes\<close>

lemma wsum_update:
  "i < length ws \<Longrightarrow> wsum f (ws[i := w]) + f (ws ! i) = wsum f ws + f w"
proof (induction ws arbitrary: i)
  case Nil
  then show ?case by simp
next
  case (Cons x ws)
  show ?case
  proof (cases i)
    case 0
    then show ?thesis by (simp add: wsum_def)
  next
    case (Suc j)
    then have "wsum f (ws[j := w]) + f (ws ! j) = wsum f ws + f w"
      using Cons by simp
    then show ?thesis using Suc by (simp add: wsum_def)
  qed
qed

lemma wsum_replicate_zero: "f w = 0 \<Longrightarrow> wsum f (replicate n w) = 0"
  by (induction n) (simp_all add: wsum_def)

lemma wsum_zero_iff: "wsum f ws = 0 \<longleftrightarrow> (\<forall>w \<in> set ws. f w = 0)"
  by (induction ws) (simp_all add: wsum_def)

lemma wsum_member_le: "w \<in> set ws \<Longrightarrow> f w \<le> wsum f ws"
  by (induction ws) (auto simp: wsum_def)

lemma nsum_bump:
  "nsum n (\<lambda>u. f u + (if u = u0 then k else 0)) = nsum n f + (if u0 < n then k else 0)"
  by (simp add: nsum_def sum.distrib)

lemma nsum_cong: "(\<And>u. u < n \<Longrightarrow> f u = f' u) \<Longrightarrow> nsum n f = nsum n f'"
  by (simp add: nsum_def)

lemma nsum_mono: "(\<And>u. u < n \<Longrightarrow> f u \<le> f' u) \<Longrightarrow> nsum n f \<le> nsum n f'"
  unfolding nsum_def by (rule sum_mono) simp

lemma nsum_strict:
  assumes "\<And>u. u < n \<Longrightarrow> f u \<le> f' u" and "u0 < n" and "f u0 < f' u0"
  shows "nsum n f < nsum n f'"
  unfolding nsum_def
  by (rule sum_strict_mono_ex1) (use assms in auto)

lemma nsum_eq_termwise:
  assumes "\<And>u. u < n \<Longrightarrow> f u \<le> f' u" and "nsum n f = nsum n f'" and "u < n"
  shows "f u = f' u"
proof (rule ccontr)
  assume "f u \<noteq> f' u"
  then have "f u < f' u" using assms(1)[OF assms(3)] by simp
  then have "nsum n f < nsum n f'" using nsum_strict[of n f f' u] assms by simp
  then show False using assms(2) by simp
qed

lemma nsum_const_one: "nsum n (\<lambda>u. 1) = n"
  by (simp add: nsum_def)

lemma nsum_concat: "nsum (length a) (\<lambda>u. count_list (a ! u) v) = count_list (concat a) v"
proof (induction a rule: rev_induct)
  case Nil
  then show ?case by (simp add: nsum_def)
next
  case (snoc x a)
  have "nsum (length a) (\<lambda>u. count_list ((a @ [x]) ! u) v) =
      nsum (length a) (\<lambda>u. count_list (a ! u) v)"
    by (rule nsum_cong) (simp add: nth_append)
  then show ?case using snoc by (simp add: nsum_def)
qed

subsection \<open>The steps, case by case\<close>

lemma step_cases [consumes 1, case_names entry_empty entry_reset seed_enqueue seed_skip
    seed_done wait_done quit fetch finish decrement enqueue complete notify]:
  assumes "step t s = Next s'"
  obtains
    "t = Caller" "caller s = Entry" "nodes (dag s) = []" "s' = s\<lparr>caller := Returned\<rparr>"
  | "t = Caller" "caller s = Entry" "nodes (dag s) \<noteq> []"
      "s' = s\<lparr>dag := reset (dag s), caller := Seeding 0\<rparr>"
  | i where "t = Caller" "caller s = Seeding i" "i < length (nodes (dag s))"
      "i < length (base_indegree (dag s))" "base_indegree (dag s) ! i = 0"
      "s' = s\<lparr>thread_pool := (thread_pool s)\<lparr>tasks := tasks (thread_pool s) @ [i]\<rparr>,
              caller := Seeding (i + 1), trace := trace s @ [Enqueued i]\<rparr>"
  | i where "t = Caller" "caller s = Seeding i" "i < length (nodes (dag s))"
      "i < length (base_indegree (dag s))" "base_indegree (dag s) ! i \<noteq> 0"
      "s' = s\<lparr>caller := Seeding (i + 1)\<rparr>"
  | i where "t = Caller" "caller s = Seeding i" "\<not> i < length (nodes (dag s))"
      "s' = s\<lparr>caller := Wait\<rparr>"
  | "t = Caller" "caller s = Wait" "remaining (dag s) = 0" "s' = s\<lparr>caller := Returned\<rparr>"
  | i where "t = Worker i" "i < length (workers (thread_pool s))"
      "workers (thread_pool s) ! i = Waiting" "stop (thread_pool s)" "tasks (thread_pool s) = []"
      "s' = s\<lparr>thread_pool := (thread_pool s)\<lparr>workers := (workers (thread_pool s))[i := Exited]\<rparr>\<rparr>"
  | i u q where "t = Worker i" "i < length (workers (thread_pool s))"
      "workers (thread_pool s) ! i = Waiting" "tasks (thread_pool s) = u # q"
      "u < length (nodes (dag s))"
      "s' = s\<lparr>thread_pool := (thread_pool s)\<lparr>tasks := q,
                workers := (workers (thread_pool s))[i := Running (Executing u)]\<rparr>,
              trace := trace s @ [Started u]\<rparr>"
  | i u where "t = Worker i" "i < length (workers (thread_pool s))"
      "workers (thread_pool s) ! i = Running (Executing u)" "u < length (adj (dag s))"
      "s' = s\<lparr>thread_pool := (thread_pool s)\<lparr>workers :=
                (workers (thread_pool s))[i := Running (Resolving u (adj (dag s) ! u))]\<rparr>,
              trace := trace s @ [Finished u]\<rparr>"
  | i u v vs where "t = Worker i" "i < length (workers (thread_pool s))"
      "workers (thread_pool s) ! i = Running (Resolving u (v # vs))"
      "v < length (current_indegree (dag s))"
      "s' = s\<lparr>dag := (dag s)\<lparr>current_indegree :=
                (current_indegree (dag s))[v := fetch_sub_int (current_indegree (dag s) ! v)]\<rparr>,
              thread_pool := (thread_pool s)\<lparr>workers := (workers (thread_pool s))
                [i := Running (if current_indegree (dag s) ! v = 1 then Enqueuing u v vs
                               else Resolving u vs)]\<rparr>,
              trace := trace s @ [Decremented u v]\<rparr>"
  | i u v vs where "t = Worker i" "i < length (workers (thread_pool s))"
      "workers (thread_pool s) ! i = Running (Enqueuing u v vs)"
      "s' = s\<lparr>thread_pool := (thread_pool s)\<lparr>tasks := tasks (thread_pool s) @ [v],
                workers := (workers (thread_pool s))[i := Running (Resolving u vs)]\<rparr>,
              trace := trace s @ [Enqueued v]\<rparr>"
  | i u where "t = Worker i" "i < length (workers (thread_pool s))"
      "workers (thread_pool s) ! i = Running (Resolving u [])"
      "s' = s\<lparr>dag := (dag s)\<lparr>remaining := fetch_sub_size (remaining (dag s))\<rparr>,
              thread_pool := (thread_pool s)\<lparr>workers := (workers (thread_pool s))
                [i := if remaining (dag s) = 1 then Running (Notifying u) else Waiting]\<rparr>,
              trace := trace s @ [Completed u]\<rparr>"
  | i u where "t = Worker i" "i < length (workers (thread_pool s))"
      "workers (thread_pool s) ! i = Running (Notifying u)"
      "s' = s\<lparr>thread_pool := (thread_pool s)\<lparr>workers := (workers (thread_pool s))[i := Waiting]\<rparr>,
              trace := trace s @ [Notified u]\<rparr>"
proof (cases t)
  case Caller
  then have cs: "caller_step s = Next s'" using assms by simp
  show ?thesis
  proof (cases "caller s")
    case Entry
    then show ?thesis
      using cs Caller that(1,2) by (auto simp: caller_step_def split: if_splits)
  next
    case (Seeding i)
    then show ?thesis
      using cs Caller that(3,4,5)
      by (auto simp: caller_step_def enqueue_def split: if_splits)
  next
    case Wait
    then show ?thesis
      using cs Caller that(6) by (auto simp: caller_step_def split: if_splits)
  next
    case Returned
    then show ?thesis using cs by (simp add: caller_step_def)
  qed
next
  case (Worker i)
  then have ws: "worker_step i s = Next s'" using assms by simp
  then have lt: "i < length (workers (thread_pool s))"
    by (auto simp: worker_step_def split: if_splits)
  show ?thesis
  proof (cases "workers (thread_pool s) ! i")
    case Waiting
    then show ?thesis
      using ws lt Worker that(7)[of i] that(8)[of i]
      by (cases "tasks (thread_pool s)")
        (auto simp: worker_step_def worker_fetch_def set_worker_def split: if_splits)
  next
    case (Running pc)
    then have ds: "dispatch_step i pc s = Next s'"
      using ws lt by (simp add: worker_step_def)
    show ?thesis
    proof (cases pc)
      case (Executing u)
      then show ?thesis
        using ds lt Worker Running that(9)[of i u]
        by (auto simp: set_worker_def split: if_splits)
    next
      case (Resolving u vs)
      show ?thesis
      proof (cases vs)
        case Nil
        then show ?thesis
          using ds lt Worker Running Resolving that(12)[of i u]
          by (auto simp: set_worker_def Let_def split: if_splits)
      next
        case (Cons v vs')
        then show ?thesis
          using ds lt Worker Running Resolving that(10)[of i u v vs']
          by (auto simp: set_worker_def Let_def split: if_splits)
      qed
    next
      case (Enqueuing u v vs)
      then show ?thesis
        using ds lt Worker Running that(11)[of i u v vs]
        by (auto simp: set_worker_def enqueue_def split: if_splits)
    next
      case (Notifying u)
      then show ?thesis
        using ds lt Worker Running that(13)[of i u]
        by (auto simp: set_worker_def split: if_splits)
    qed
  next
    case Exited
    then show ?thesis using ws lt by (simp add: worker_step_def)
  qed
qed

lemma count_list_snoc: "count_list (h @ [e]) x = count_list h x + (if e = x then 1 else 0)"
  by (induction h) simp_all

lemma nsum_snoc_Decremented:
  "nsum n (\<lambda>u. count_list (h @ [Decremented u0 v0]) (Decremented u v)) =
     nsum n (\<lambda>u. count_list h (Decremented u v)) + (if v = v0 \<and> u0 < n then 1 else 0)"
proof (cases "v = v0")
  case True
  have "nsum n (\<lambda>u. count_list (h @ [Decremented u0 v0]) (Decremented u v)) =
      nsum n (\<lambda>u. count_list h (Decremented u v) + (if u = u0 then 1 else 0))"
    by (rule nsum_cong) (simp add: count_list_snoc True)
  then show ?thesis using True by (simp add: nsum_bump)
next
  case False
  have "nsum n (\<lambda>u. count_list (h @ [Decremented u0 v0]) (Decremented u v)) =
      nsum n (\<lambda>u. count_list h (Decremented u v))"
    using False by (intro nsum_cong) (auto simp: count_list_snoc)
  then show ?thesis using False by simp
qed

lemma nsum_snoc_Completed:
  "nsum n (\<lambda>v. count_list (h @ [Completed u0]) (Completed v)) =
     nsum n (\<lambda>v. count_list h (Completed v)) + (if u0 < n then 1 else 0)"
proof -
  have "nsum n (\<lambda>v. count_list (h @ [Completed u0]) (Completed v)) =
      nsum n (\<lambda>v. count_list h (Completed v) + (if v = u0 then 1 else 0))"
    by (rule nsum_cong) (simp add: count_list_snoc)
  then show ?thesis by (simp add: nsum_bump)
qed

lemma wsum_split:
  assumes "i < length ws" and "f Waiting = 0"
  shows "wsum f (ws[i := w]) = f w + wsum f (ws[i := Waiting])"
proof -
  have "wsum f (ws[i := w]) + f (ws ! i) = wsum f ws + f w"
    using wsum_update[OF assms(1)] .
  moreover have "wsum f (ws[i := Waiting]) + f (ws ! i) = wsum f ws + f Waiting"
    using wsum_update[OF assms(1)] .
  ultimately show ?thesis using assms(2) by simp
qed

lemma wsum_split_old:
  assumes "i < length ws" and "f Waiting = 0"
  shows "wsum f ws = f (ws ! i) + wsum f (ws[i := Waiting])"
  using wsum_split[of i ws f "ws ! i"] assms by simp

lemma ball_list_update:
  "\<forall>w \<in> set ws. P w \<Longrightarrow> P w' \<Longrightarrow> \<forall>w \<in> set (ws[i := w']). P w"
  by (metis insert_iff set_update_subset_insert subsetD)

lemma edges_iff: "(u, v) \<in> edges g \<longleftrightarrow> u < length (adj g) \<and> v \<in> set (adj g ! u)"
  by (auto simp: edges_def edge_list_def)

lemma wf_dag_successor:
  "wf_dag g \<Longrightarrow> u < length (nodes g) \<Longrightarrow> v \<in> set (adj g ! u) \<Longrightarrow> v < length (nodes g)"
  by (auto simp: wf_dag_def)

lemma wf_dag_base:
  assumes "wf_dag g" and "v < length (nodes g)"
  shows "base_indegree g ! v = int (nsum (length (nodes g)) (\<lambda>u. count_list (adj g ! u) v))"
proof -
  have "length (adj g) = length (nodes g)" using assms by (simp add: wf_dag_def)
  then show ?thesis
    using assms nsum_concat[of "adj g" v] by (simp add: wf_dag_def)
qed

subsection \<open>The invariant is kept by every step\<close>

lemma pass_structure_step:
  assumes wf: "wf_dag g" and inv: "pass_structure g W s" and st: "step t s = Next s'"
    and ne: "caller s \<noteq> Entry"
  shows "pass_structure g W s'"
  using st
proof (cases rule: step_cases)
  case entry_empty
  then show ?thesis using ne by simp
next
  case entry_reset
  then show ?thesis using ne by simp
next
  case (seed_enqueue i)
  then show ?thesis using inv by (auto simp: pass_structure_def seeded_def split: caller_pc.splits)
next
  case (seed_skip i)
  then show ?thesis using inv by (auto simp: pass_structure_def seeded_def split: caller_pc.splits)
next
  case (seed_done i)
  then show ?thesis using inv by (auto simp: pass_structure_def seeded_def split: caller_pc.splits)
next
  case wait_done
  then show ?thesis using inv by (auto simp: pass_structure_def seeded_def split: caller_pc.splits)
next
  case (quit i)
  then show ?thesis using inv by (simp add: pass_structure_def)
next
  case (fetch i u q)
  have "\<forall>w \<in> set ((workers (thread_pool s))[i := Running (Executing u)]).
      pc_in_range (length (nodes g)) w"
    using inv fetch by (intro ball_list_update) (auto simp: pass_structure_def)
  then show ?thesis using inv fetch by (auto simp: pass_structure_def seeded_def split: caller_pc.splits)
next
  case (finish i u)
  have "u < length (nodes g)"
    using inv finish wf by (simp add: pass_structure_def wf_dag_def)
  then have "\<forall>w \<in> set ((workers (thread_pool s))[i := Running (Resolving u (adj (dag s) ! u))]).
      pc_in_range (length (nodes g)) w"
    using inv finish wf
    by (intro ball_list_update) (auto simp: pass_structure_def dest: wf_dag_successor)
  then show ?thesis using inv finish by (auto simp: pass_structure_def seeded_def split: caller_pc.splits)
next
  case (decrement i u v vs)
  have "pc_in_range (length (nodes g)) (Running (Resolving u (v # vs)))"
    using inv decrement nth_mem[of i "workers (thread_pool s)"]
    by (auto simp: pass_structure_def)
  then have "\<forall>w \<in> set ((workers (thread_pool s))
      [i := Running (if current_indegree (dag s) ! v = 1 then Enqueuing u v vs
                               else Resolving u vs)]).
      pc_in_range (length (nodes g)) w"
    using inv by (intro ball_list_update) (auto simp: pass_structure_def)
  then show ?thesis using inv decrement by (auto simp: pass_structure_def seeded_def split: caller_pc.splits)
next
  case (enqueue i u v vs)
  have r: "pc_in_range (length (nodes g)) (Running (Enqueuing u v vs))"
    using inv enqueue nth_mem[of i "workers (thread_pool s)"]
    by (auto simp: pass_structure_def)
  then have "\<forall>w \<in> set ((workers (thread_pool s))[i := Running (Resolving u vs)]).
      pc_in_range (length (nodes g)) w"
    using inv by (intro ball_list_update) (auto simp: pass_structure_def)
  then show ?thesis using inv enqueue r by (auto simp: pass_structure_def seeded_def split: caller_pc.splits)
next
  case (complete i u)
  have r: "pc_in_range (length (nodes g)) (Running (Resolving u []))"
    using inv complete nth_mem[of i "workers (thread_pool s)"]
    by (auto simp: pass_structure_def)
  then have "\<forall>w \<in> set ((workers (thread_pool s))
      [i := if remaining (dag s) = 1 then Running (Notifying u) else Waiting]).
      pc_in_range (length (nodes g)) w"
    using inv by (intro ball_list_update) (auto simp: pass_structure_def)
  then show ?thesis using inv complete by (auto simp: pass_structure_def seeded_def split: caller_pc.splits)
next
  case (notify i u)
  have "\<forall>w \<in> set ((workers (thread_pool s))[i := Waiting]).
      pc_in_range (length (nodes g)) w"
    using inv by (intro ball_list_update) (auto simp: pass_structure_def)
  then show ?thesis using inv notify by (auto simp: pass_structure_def seeded_def split: caller_pc.splits)
qed

lemma wsum_others:
  "i < length ws \<Longrightarrow> f Waiting = 0 \<Longrightarrow> wsum f ws = f (ws ! i) + others i f ws"
  unfolding others_def by (rule wsum_split_old)

lemma others_update: "others i f (ws[i := w]) = others i f ws"
  by (simp add: others_def)

lemma pass_countsI:
  assumes "\<And>v. v < length (nodes g) \<Longrightarrow>
      count_list (tasks (thread_pool s)) v + wsum (submits v) (workers (thread_pool s)) +
      wsum (owns v) (workers (thread_pool s)) + count_list (trace s) (Completed v) =
      (if released s v then 1 else 0)"
    and "\<And>v. count_list (trace s) (Started v) =
      wsum (owns v) (workers (thread_pool s)) + count_list (trace s) (Completed v)"
    and "\<And>v. count_list (trace s) (Finished v) + wsum (executes v) (workers (thread_pool s)) =
      wsum (owns v) (workers (thread_pool s)) + count_list (trace s) (Completed v)"
    and "\<And>v. count_list (trace s) (Enqueued v) =
      count_list (tasks (thread_pool s)) v + wsum (owns v) (workers (thread_pool s)) +
      count_list (trace s) (Completed v)"
    and "\<And>u v. u < length (nodes g) \<Longrightarrow>
      count_list (trace s) (Decremented u v) +
      (if count_list (trace s) (Finished u) = 0 then count_list (adj g ! u) v else 0) +
      wsum (todo u v) (workers (thread_pool s)) = count_list (adj g ! u) v"
    and "\<And>v. v < length (nodes g) \<Longrightarrow>
      current_indegree (dag s) ! v +
      int (nsum (length (nodes g)) (\<lambda>u. count_list (trace s) (Decremented u v))) =
      base_indegree g ! v"
    and "remaining (dag s) + nsum (length (nodes g)) (\<lambda>v. count_list (trace s) (Completed v)) =
      length (nodes g)"
    and "caller s = Returned \<Longrightarrow> remaining (dag s) = 0"
    and "\<And>v. length (nodes g) \<le> v \<Longrightarrow> count_list (trace s) (Completed v) = 0"
  shows "pass_counts g s"
  using assms unfolding pass_counts_def Let_def by blast

lemma pass_countsD:
  assumes "pass_counts g s"
  shows "\<And>v. v < length (nodes g) \<Longrightarrow>
      count_list (tasks (thread_pool s)) v + wsum (submits v) (workers (thread_pool s)) +
      wsum (owns v) (workers (thread_pool s)) + count_list (trace s) (Completed v) =
      (if released s v then 1 else 0)"
    and "\<And>v. count_list (trace s) (Started v) =
      wsum (owns v) (workers (thread_pool s)) + count_list (trace s) (Completed v)"
    and "\<And>v. count_list (trace s) (Finished v) + wsum (executes v) (workers (thread_pool s)) =
      wsum (owns v) (workers (thread_pool s)) + count_list (trace s) (Completed v)"
    and "\<And>v. count_list (trace s) (Enqueued v) =
      count_list (tasks (thread_pool s)) v + wsum (owns v) (workers (thread_pool s)) +
      count_list (trace s) (Completed v)"
    and "\<And>u v. u < length (nodes g) \<Longrightarrow>
      count_list (trace s) (Decremented u v) +
      (if count_list (trace s) (Finished u) = 0 then count_list (adj g ! u) v else 0) +
      wsum (todo u v) (workers (thread_pool s)) = count_list (adj g ! u) v"
    and "\<And>v. v < length (nodes g) \<Longrightarrow>
      current_indegree (dag s) ! v +
      int (nsum (length (nodes g)) (\<lambda>u. count_list (trace s) (Decremented u v))) =
      base_indegree g ! v"
    and "remaining (dag s) + nsum (length (nodes g)) (\<lambda>v. count_list (trace s) (Completed v)) =
      length (nodes g)"
    and "caller s = Returned \<Longrightarrow> remaining (dag s) = 0"
    and "\<And>v. length (nodes g) \<le> v \<Longrightarrow> count_list (trace s) (Completed v) = 0"
  using assms unfolding pass_counts_def Let_def by blast+

lemma released_cong:
  "caller s' = caller s \<Longrightarrow> dag s' = dag s \<Longrightarrow> released s' v = released s v"
  by (simp add: released_def seeded_def)

text \<open>A worker in the successor loop has a positive counter in front of it.\<close>

lemma counter_positive:
  assumes wf: "wf_dag g" and cnt: "pass_counts g s"
    and i: "i < length (workers (thread_pool s))"
    and w: "workers (thread_pool s) ! i = Running (Resolving u (v # vs))"
    and u: "u < length (nodes g)" and v: "v < length (nodes g)"
  shows "1 \<le> current_indegree (dag s) ! v"
proof -
  let ?n = "length (nodes g)"
  let ?D = "\<lambda>u. count_list (trace s) (Decremented u v)"
  have le: "?D u' \<le> count_list (adj g ! u') v" if "u' < ?n" for u'
    using pass_countsD(5)[OF cnt that, of v] by simp
  have "todo u v (workers (thread_pool s) ! i) \<le> wsum (todo u v) (workers (thread_pool s))"
    using i by (intro wsum_member_le) simp
  then have "1 \<le> wsum (todo u v) (workers (thread_pool s))"
    using w by simp
  then have "?D u < count_list (adj g ! u) v"
    using pass_countsD(5)[OF cnt u, of v] by simp
  then have "nsum ?n ?D < nsum ?n (\<lambda>u. count_list (adj g ! u) v)"
    using le u by (intro nsum_strict[where ?u0.0 = u]) auto
  then show ?thesis
    using pass_countsD(6)[OF cnt v] wf_dag_base[OF wf v] by simp
qed

text \<open>A worker that runs a dispatch is the only place of its node.\<close>

lemma owner_alone:
  assumes cnt: "pass_counts g s"
    and i: "i < length (workers (thread_pool s))"
    and w: "owns u (workers (thread_pool s) ! i) = 1"
    and u: "u < length (nodes g)"
  shows "count_list (tasks (thread_pool s)) u = 0"
    and "others i (owns u) (workers (thread_pool s)) = 0"
    and "count_list (trace s) (Completed u) = 0"
    and "wsum (submits u) (workers (thread_pool s)) = 0"
    and "released s u"
proof -
  have "wsum (owns u) (workers (thread_pool s)) = 1 + others i (owns u) (workers (thread_pool s))"
    using wsum_others[OF i, of "owns u"] w by simp
  then have *: "count_list (tasks (thread_pool s)) u + wsum (submits u) (workers (thread_pool s)) +
      (1 + others i (owns u) (workers (thread_pool s))) + count_list (trace s) (Completed u) =
      (if released s u then 1 else 0)"
    using pass_countsD(1)[OF cnt u] by simp
  show "count_list (tasks (thread_pool s)) u = 0"
    and "others i (owns u) (workers (thread_pool s)) = 0"
    and "count_list (trace s) (Completed u) = 0"
    and "wsum (submits u) (workers (thread_pool s)) = 0"
    and "released s u"
    using * by (auto split: if_splits)
qed

lemma completed_le_one:
  assumes "pass_counts g s" and "v < length (nodes g)"
  shows "count_list (trace s) (Completed v) \<le> 1"
  using pass_countsD(1)[OF assms] by (simp split: if_splits)

lemma wsum_others_update:
  "i < length ws \<Longrightarrow> f Waiting = 0 \<Longrightarrow> wsum f (ws[i := w]) = f w + others i f ws"
  using wsum_others[of i "ws[i := w]" f] by (simp add: others_update)

lemma fetch_sub_int_pos: "1 \<le> c \<Longrightarrow> fetch_sub_int c = c - 1"
  by (simp add: fetch_sub_int_def)

lemma fetch_sub_size_pos: "1 \<le> r \<Longrightarrow> fetch_sub_size r = r - 1"
  by (simp add: fetch_sub_size_def)

lemma pass_counts_step:
  assumes wf: "wf_dag g" and str: "pass_structure g W s" and cnt: "pass_counts g s"
    and st: "step t s = Next s'"
  shows "pass_counts g s'"
proof -
  let ?n = "length (nodes g)"
  note A = pass_countsD(1)[OF cnt] and B = pass_countsD(2)[OF cnt]
    and C = pass_countsD(3)[OF cnt] and D = pass_countsD(4)[OF cnt]
    and E = pass_countsD(5)[OF cnt] and F = pass_countsD(6)[OF cnt]
    and G = pass_countsD(7)[OF cnt] and H = pass_countsD(8)[OF cnt]
    and I = pass_countsD(9)[OF cnt]
  have sg: "nodes (dag s) = nodes g" "adj (dag s) = adj g"
    "base_indegree (dag s) = base_indegree g"
    "length (current_indegree (dag s)) = ?n" "caller s \<noteq> Entry" "seeded s \<le> ?n"
    "\<not> stop (thread_pool s)"
    using str by (simp_all add: pass_structure_def)
  have rng: "pc_in_range ?n (workers (thread_pool s) ! i)"
    if "i < length (workers (thread_pool s))" for i
    using str that by (simp add: pass_structure_def)
  show ?thesis
    using st
  proof (cases rule: step_cases)
    case entry_empty
    then show ?thesis using sg by simp
  next
    case entry_reset
    then show ?thesis using sg by simp
  next
    case (seed_enqueue i)
    have p: "tasks (thread_pool s') = tasks (thread_pool s) @ [i]"
      "workers (thread_pool s') = workers (thread_pool s)"
      "trace s' = trace s @ [Enqueued i]" "dag s' = dag s" "caller s' = Seeding (i + 1)"
      by (simp_all add: seed_enqueue)
    have rel: "released s' v = (released s v \<or> v = i)" for v
      using seed_enqueue(2,5) by (auto simp: released_def seeded_def p)
    have nrel: "\<not> released s i"
      using seed_enqueue(2,5) by (simp add: released_def seeded_def)
    show ?thesis
    proof (rule pass_countsI, goal_cases)
      case (1 v)
      then show ?case using A[of v] nrel by (auto simp: p rel count_list_snoc)
    next
      case (2 v)
      then show ?case using B[of v] by (simp add: p count_list_snoc)
    next
      case (3 v)
      then show ?case using C[of v] by (simp add: p count_list_snoc)
    next
      case (4 v)
      then show ?case using D[of v] by (simp add: p count_list_snoc)
    next
      case (5 u v)
      then show ?case using E[of u v] by (simp add: p count_list_snoc)
    next
      case (6 v)
      then show ?case using F[of v] by (simp add: p count_list_snoc)
    next
      case 7
      then show ?case using G by (simp add: p count_list_snoc)
    next
      case 8
      then show ?case by (simp add: p)
    next
      case (9 v)
      then show ?case using I[of v] by (simp add: p count_list_snoc)
    qed
  next
    case (seed_skip i)
    have p: "tasks (thread_pool s') = tasks (thread_pool s)"
      "workers (thread_pool s') = workers (thread_pool s)"
      "trace s' = trace s" "dag s' = dag s" "caller s' = Seeding (i + 1)"
      by (simp_all add: seed_skip)
    have rel: "released s' v = released s v" for v
      using seed_skip(2,5) by (auto simp: released_def seeded_def p less_Suc_eq)
    show ?thesis
    proof (rule pass_countsI, goal_cases)
      case (1 v)
      then show ?case using A[of v] by (simp add: p rel)
    next
      case (2 v)
      then show ?case using B[of v] by (simp add: p)
    next
      case (3 v)
      then show ?case using C[of v] by (simp add: p)
    next
      case (4 v)
      then show ?case using D[of v] by (simp add: p)
    next
      case (5 u v)
      then show ?case using E[of u v] by (simp add: p)
    next
      case (6 v)
      then show ?case using F[of v] by (simp add: p)
    next
      case 7
      then show ?case using G by (simp add: p)
    next
      case 8
      then show ?case by (simp add: p)
    next
      case (9 v)
      then show ?case using I[of v] by (simp add: p count_list_snoc)
    qed
  next
    case (seed_done i)
    have p: "tasks (thread_pool s') = tasks (thread_pool s)"
      "workers (thread_pool s') = workers (thread_pool s)"
      "trace s' = trace s" "dag s' = dag s" "caller s' = Wait"
      by (simp_all add: seed_done)
    have "i = ?n"
      using seed_done(2,3) sg by (simp add: seeded_def)
    then have rel: "released s' v = released s v" for v
      using seed_done(2) sg by (simp add: released_def seeded_def p)
    show ?thesis
    proof (rule pass_countsI, goal_cases)
      case (1 v)
      then show ?case using A[of v] by (simp add: p rel)
    next
      case (2 v)
      then show ?case using B[of v] by (simp add: p)
    next
      case (3 v)
      then show ?case using C[of v] by (simp add: p)
    next
      case (4 v)
      then show ?case using D[of v] by (simp add: p)
    next
      case (5 u v)
      then show ?case using E[of u v] by (simp add: p)
    next
      case (6 v)
      then show ?case using F[of v] by (simp add: p)
    next
      case 7
      then show ?case using G by (simp add: p)
    next
      case 8
      then show ?case by (simp add: p)
    next
      case (9 v)
      then show ?case using I[of v] by (simp add: p count_list_snoc)
    qed
  next
    case wait_done
    have p: "tasks (thread_pool s') = tasks (thread_pool s)"
      "workers (thread_pool s') = workers (thread_pool s)"
      "trace s' = trace s" "dag s' = dag s" "caller s' = Returned"
      by (simp_all add: wait_done)
    have rel: "released s' v = released s v" for v
      using wait_done(2) by (simp add: released_def seeded_def p)
    show ?thesis
    proof (rule pass_countsI, goal_cases)
      case (1 v)
      then show ?case using A[of v] by (simp add: p rel)
    next
      case (2 v)
      then show ?case using B[of v] by (simp add: p)
    next
      case (3 v)
      then show ?case using C[of v] by (simp add: p)
    next
      case (4 v)
      then show ?case using D[of v] by (simp add: p)
    next
      case (5 u v)
      then show ?case using E[of u v] by (simp add: p)
    next
      case (6 v)
      then show ?case using F[of v] by (simp add: p)
    next
      case 7
      then show ?case using G by (simp add: p)
    next
      case 8
      then show ?case using wait_done(3) by (simp add: p)
    next
      case (9 v)
      then show ?case using I[of v] by (simp add: p count_list_snoc)
    qed
  next
    case (quit i)
    then show ?thesis using sg by simp
  next
    case (fetch i u q)
    have p: "tasks (thread_pool s') = q"
      "workers (thread_pool s') = (workers (thread_pool s))[i := Running (Executing u)]"
      "trace s' = trace s @ [Started u]" "dag s' = dag s" "caller s' = caller s"
      by (simp_all add: fetch)
    note O = wsum_others[OF fetch(2)] and N = wsum_others_update[OF fetch(2)]
    note w = fetch(3,4)
    have rel: "released s' v = released s v" for v
      by (rule released_cong) (simp_all add: p)
    show ?thesis
    proof (rule pass_countsI, goal_cases)
      case (1 v)
      then show ?case using A[of v] by (simp add: p rel O N w count_list_snoc split: if_splits)
    next
      case (2 v)
      then show ?case using B[of v] by (simp add: p O N w count_list_snoc)
    next
      case (3 v)
      then show ?case using C[of v] by (simp add: p O N w count_list_snoc)
    next
      case (4 v)
      then show ?case using D[of v] by (simp add: p O N w count_list_snoc split: if_splits)
    next
      case (5 u' v)
      then show ?case using E[of u' v] by (simp add: p O N w count_list_snoc)
    next
      case (6 v)
      then show ?case using F[of v] by (simp add: p count_list_snoc)
    next
      case 7
      then show ?case using G by (simp add: p count_list_snoc)
    next
      case 8
      then show ?case using H by (simp add: p)
    next
      case (9 v)
      then show ?case using I[of v] by (simp add: p count_list_snoc)
    qed
  next
    case (finish i u)
    have p: "tasks (thread_pool s') = tasks (thread_pool s)"
      "workers (thread_pool s') =
         (workers (thread_pool s))[i := Running (Resolving u (adj g ! u))]"
      "trace s' = trace s @ [Finished u]" "dag s' = dag s" "caller s' = caller s"
      by (simp_all add: finish sg)
    note O = wsum_others[OF finish(2)] and N = wsum_others_update[OF finish(2)]
    note w = finish(3)
    have rel: "released s' v = released s v" for v
      by (rule released_cong) (simp_all add: p)
    have u: "u < ?n" using rng[OF finish(2)] w by simp
    have own: "owns u (workers (thread_pool s) ! i) = 1" using w by simp
    have fin0: "count_list (trace s) (Finished u) = 0"
      using C[of u] owner_alone(2,3)[OF cnt finish(2) own u] by (simp add: O w)
    show ?thesis
    proof (rule pass_countsI, goal_cases)
      case (1 v)
      then show ?case using A[of v] by (simp add: p rel O N w count_list_snoc)
    next
      case (2 v)
      then show ?case using B[of v] by (simp add: p O N w count_list_snoc)
    next
      case (3 v)
      then show ?case using C[of v] by (simp add: p O N w count_list_snoc)
    next
      case (4 v)
      then show ?case using D[of v] by (simp add: p O N w count_list_snoc)
    next
      case (5 u' v)
      then show ?case
        using E[of u' v] fin0 by (cases "u' = u") (simp_all add: p O N w count_list_snoc)
    next
      case (6 v)
      then show ?case using F[of v] by (simp add: p count_list_snoc)
    next
      case 7
      then show ?case using G by (simp add: p count_list_snoc)
    next
      case 8
      then show ?case using H by (simp add: p)
    next
      case (9 v)
      then show ?case using I[of v] by (simp add: p count_list_snoc)
    qed
  next
    case (decrement i u v vs)
    let ?c = "current_indegree (dag s) ! v"
    have p: "tasks (thread_pool s') = tasks (thread_pool s)"
      "workers (thread_pool s') = (workers (thread_pool s))
         [i := Running (if ?c = 1 then Enqueuing u v vs else Resolving u vs)]"
      "trace s' = trace s @ [Decremented u v]"
      "current_indegree (dag s') = (current_indegree (dag s))[v := fetch_sub_int ?c]"
      "base_indegree (dag s') = base_indegree (dag s)" "nodes (dag s') = nodes (dag s)"
      "remaining (dag s') = remaining (dag s)"
      "caller s' = caller s"
      by (simp_all add: decrement)
    note O = wsum_others[OF decrement(2)] and N = wsum_others_update[OF decrement(2)]
    note w = decrement(3)
    have uv: "u < ?n" "v < ?n" using rng[OF decrement(2)] w by simp_all
    have pos: "1 \<le> ?c"
      using counter_positive[OF wf cnt decrement(2) w uv] .
    have base: "base_indegree g ! v \<noteq> 0"
      using F[OF uv(2)] pos by simp
    have new: "current_indegree (dag s') ! v' = (if v' = v then ?c - 1 else current_indegree (dag s) ! v')"
      if "v' < ?n" for v'
      using that sg(4) uv(2) by (simp add: p fetch_sub_int_pos[OF pos] nth_list_update)
    have rel: "released s' v' = (if v' = v then ?c = 1 else released s v')" if "v' < ?n" for v'
      using new[OF that] base sg(3) by (auto simp: released_def seeded_def p)
    have nrel: "\<not> released s v"
      using base pos sg(3) by (simp add: released_def)
    show ?thesis
    proof (rule pass_countsI, goal_cases)
      case (1 v')
      then show ?case
        using A[of v'] nrel rel[of v'] by (simp add: p O N w count_list_snoc split: if_splits)
    next
      case (2 v')
      then show ?case using B[of v'] by (simp add: p O N w count_list_snoc)
    next
      case (3 v')
      then show ?case using C[of v'] by (simp add: p O N w count_list_snoc)
    next
      case (4 v')
      then show ?case using D[of v'] by (simp add: p O N w count_list_snoc)
    next
      case (5 u' v')
      then show ?case
        using E[of u' v'] by (simp add: p O N w count_list_snoc split: if_splits)
    next
      case (6 v')
      have "nsum ?n (\<lambda>u. count_list (trace s') (Decremented u v')) =
          nsum ?n (\<lambda>u. count_list (trace s) (Decremented u v')) + (if v' = v then 1 else 0)"
        unfolding p(3) using uv(1) by (subst nsum_snoc_Decremented) simp
      then show ?case
        using 6 F[of v'] new[of v'] pos by (cases "v' = v") simp_all
    next
      case 7
      then show ?case using G by (simp add: p count_list_snoc)
    next
      case 8
      then show ?case using H by (simp add: p)
    next
      case (9 v)
      then show ?case using I[of v] by (simp add: p count_list_snoc)
    qed
  next
    case (enqueue i u v vs)
    have p: "tasks (thread_pool s') = tasks (thread_pool s) @ [v]"
      "workers (thread_pool s') = (workers (thread_pool s))[i := Running (Resolving u vs)]"
      "trace s' = trace s @ [Enqueued v]" "dag s' = dag s" "caller s' = caller s"
      by (simp_all add: enqueue)
    note O = wsum_others[OF enqueue(2)] and N = wsum_others_update[OF enqueue(2)]
    note w = enqueue(3)
    have rel: "released s' v = released s v" for v
      by (rule released_cong) (simp_all add: p)
    show ?thesis
    proof (rule pass_countsI, goal_cases)
      case (1 v')
      then show ?case
        using A[of v'] by (simp add: p rel O N w count_list_snoc split: if_splits)
    next
      case (2 v')
      then show ?case using B[of v'] by (simp add: p O N w count_list_snoc)
    next
      case (3 v')
      then show ?case using C[of v'] by (simp add: p O N w count_list_snoc)
    next
      case (4 v')
      then show ?case using D[of v'] by (simp add: p O N w count_list_snoc)
    next
      case (5 u' v')
      then show ?case using E[of u' v'] by (simp add: p O N w count_list_snoc)
    next
      case (6 v')
      then show ?case using F[of v'] by (simp add: p count_list_snoc)
    next
      case 7
      then show ?case using G by (simp add: p count_list_snoc)
    next
      case 8
      then show ?case using H by (simp add: p)
    next
      case (9 v)
      then show ?case using I[of v] by (simp add: p count_list_snoc)
    qed
  next
    case (complete i u)
    let ?r = "remaining (dag s)"
    have p: "tasks (thread_pool s') = tasks (thread_pool s)"
      "workers (thread_pool s') = (workers (thread_pool s))
         [i := if ?r = 1 then Running (Notifying u) else Waiting]"
      "trace s' = trace s @ [Completed u]"
      "current_indegree (dag s') = current_indegree (dag s)"
      "base_indegree (dag s') = base_indegree (dag s)" "nodes (dag s') = nodes (dag s)"
      "remaining (dag s') = fetch_sub_size ?r"
      "caller s' = caller s"
      by (simp_all add: complete)
    note O = wsum_others[OF complete(2)] and N = wsum_others_update[OF complete(2)]
    note w = complete(3)
    have u: "u < ?n" using rng[OF complete(2)] w by simp
    have own: "owns u (workers (thread_pool s) ! i) = 1" using w by simp
    have "nsum ?n (\<lambda>v. count_list (trace s) (Completed v)) < nsum ?n (\<lambda>v. 1)"
      using completed_le_one[OF cnt] owner_alone(3)[OF cnt complete(2) own u] u
      by (intro nsum_strict[where ?u0.0 = u]) auto
    then have "nsum ?n (\<lambda>v. count_list (trace s) (Completed v)) < ?n"
      by (simp only: nsum_const_one)
    then have pos: "1 \<le> ?r"
      using G by simp
    have rel: "released s' v = released s v" for v
      by (simp add: released_def seeded_def p)
    show ?thesis
    proof (rule pass_countsI, goal_cases)
      case (1 v)
      then show ?case
        using A[of v] by (simp add: p rel O N w count_list_snoc split: if_splits)
    next
      case (2 v)
      then show ?case using B[of v] by (simp add: p O N w count_list_snoc)
    next
      case (3 v)
      then show ?case using C[of v] by (simp add: p O N w count_list_snoc)
    next
      case (4 v)
      then show ?case using D[of v] by (simp add: p O N w count_list_snoc)
    next
      case (5 u' v)
      then show ?case
        using E[of u' v] by (simp add: p O N w count_list_snoc split: if_splits)
    next
      case (6 v)
      then show ?case using F[of v] by (simp add: p count_list_snoc)
    next
      case 7
      have "nsum ?n (\<lambda>v. count_list (trace s') (Completed v)) =
          nsum ?n (\<lambda>v. count_list (trace s) (Completed v)) + 1"
        unfolding p(3) using u by (subst nsum_snoc_Completed) simp
      then show ?case
        using G pos by (simp add: p(7) fetch_sub_size_pos)
    next
      case 8
      then show ?case using H pos by (simp add: p)
    next
      case (9 v)
      then show ?case using I[of v] u by (auto simp: p count_list_snoc)
    qed
  next
    case (notify i u)
    have p: "tasks (thread_pool s') = tasks (thread_pool s)"
      "workers (thread_pool s') = (workers (thread_pool s))[i := Waiting]"
      "trace s' = trace s @ [Notified u]" "dag s' = dag s" "caller s' = caller s"
      by (simp_all add: notify)
    note O = wsum_others[OF notify(2)] and N = wsum_others_update[OF notify(2)]
    note w = notify(3)
    have rel: "released s' v = released s v" for v
      by (rule released_cong) (simp_all add: p)
    show ?thesis
    proof (rule pass_countsI, goal_cases)
      case (1 v)
      then show ?case using A[of v] by (simp add: p rel O N w count_list_snoc)
    next
      case (2 v)
      then show ?case using B[of v] by (simp add: p O N w count_list_snoc)
    next
      case (3 v)
      then show ?case using C[of v] by (simp add: p O N w count_list_snoc)
    next
      case (4 v)
      then show ?case using D[of v] by (simp add: p O N w count_list_snoc)
    next
      case (5 u' v)
      then show ?case using E[of u' v] by (simp add: p O N w count_list_snoc)
    next
      case (6 v)
      then show ?case using F[of v] by (simp add: p count_list_snoc)
    next
      case 7
      then show ?case using G by (simp add: p count_list_snoc)
    next
      case 8
      then show ?case using H by (simp add: p)
    next
      case (9 v)
      then show ?case using I[of v] by (simp add: p count_list_snoc)
    qed
  qed
qed

lemma ordered_snoc:
  assumes "ordered a h"
    and "\<And>v u. e = Started v \<Longrightarrow> u < length a \<Longrightarrow> v \<in> set (a ! u) \<Longrightarrow> Finished u \<in> set h"
  shows "ordered a (h @ [e])"
  unfolding ordered_def
proof (intro allI impI)
  fix k v u
  assume k: "k < length (h @ [e])" and ev: "(h @ [e]) ! k = Started v"
    and u: "u < length a" and v: "v \<in> set (a ! u)"
  show "Finished u \<in> set (take k (h @ [e]))"
  proof (cases "k < length h")
    case True
    then have "Finished u \<in> set (take k h)"
      using assms(1) ev u v by (simp add: ordered_def nth_append)
    then show ?thesis using True by simp
  next
    case False
    then have "k = length h" using k by simp
    then show ?thesis using assms(2)[of v u] ev u v by simp
  qed
qed

lemma ordered_snoc_other:
  "ordered a h \<Longrightarrow> (\<And>v. e \<noteq> Started v) \<Longrightarrow> ordered a (h @ [e])"
  by (rule ordered_snoc) auto

text \<open>
  When the live counter of \<open>v\<close> is 0, every predecessor \<open>u\<close> has returned from the
  executor and has done all its decrements of that counter.
\<close>

lemma counter_zero_predecessor:
  assumes wf: "wf_dag g" and cnt: "pass_counts g s"
    and u: "u < length (nodes g)" and v: "v < length (nodes g)"
    and zero: "current_indegree (dag s) ! v = 0"
  shows "count_list (trace s) (Decremented u v) = count_list (adj g ! u) v"
    and "v \<in> set (adj g ! u) \<Longrightarrow> Finished u \<in> set (trace s)"
proof -
  let ?n = "length (nodes g)"
  let ?D = "\<lambda>u. count_list (trace s) (Decremented u v)"
  have le: "?D u' \<le> count_list (adj g ! u') v" if "u' < ?n" for u'
    using pass_countsD(5)[OF cnt that, of v] by simp
  have "nsum ?n ?D = nsum ?n (\<lambda>u. count_list (adj g ! u) v)"
    using pass_countsD(6)[OF cnt v] wf_dag_base[OF wf v] zero by simp
  then show eq: "?D u = count_list (adj g ! u) v"
    using nsum_eq_termwise[of ?n ?D "\<lambda>u. count_list (adj g ! u) v" u] le u by simp
  show "Finished u \<in> set (trace s)" if "v \<in> set (adj g ! u)"
  proof -
    have "count_list (adj g ! u) v \<noteq> 0"
      using that by (simp add: count_list_0_iff)
    then have "count_list (trace s) (Finished u) \<noteq> 0"
      using pass_countsD(5)[OF cnt u, of v] eq by (auto split: if_splits)
    then show ?thesis by (simp add: count_list_0_iff)
  qed
qed

lemma released_predecessor:
  assumes wf: "wf_dag g" and cnt: "pass_counts g s"
    and base: "base_indegree (dag s) = base_indegree g"
    and u: "u < length (nodes g)" and v: "v < length (nodes g)"
    and rel: "released s v" and e: "v \<in> set (adj g ! u)"
  shows "Finished u \<in> set (trace s)"
proof (cases "base_indegree g ! v = 0")
  case True
  then have "nsum (length (nodes g)) (\<lambda>u. count_list (adj g ! u) v) = 0"
    using wf_dag_base[OF wf v] by simp
  then have "count_list (adj g ! u) v = 0"
    using u by (simp add: nsum_def)
  then show ?thesis using e by (simp add: count_list_0_iff)
next
  case False
  then have "current_indegree (dag s) ! v = 0"
    using rel base by (simp add: released_def)
  then show ?thesis
    using counter_zero_predecessor(2)[OF wf cnt u v _ e] by simp
qed

lemma pass_ordered_step:
  assumes wf: "wf_dag g" and str: "pass_structure g W s" and cnt: "pass_counts g s"
    and ord: "ordered (adj g) (trace s)" and st: "step t s = Next s'"
  shows "ordered (adj g) (trace s')"
  using st
proof (cases rule: step_cases)
  case (fetch i u q)
  have un: "u < length (nodes g)"
    using str fetch by (simp add: pass_structure_def)
  have "count_list (tasks (thread_pool s)) u \<noteq> 0"
    using fetch by simp
  then have rel: "released s u"
    using pass_countsD(1)[OF cnt un] by (auto split: if_splits)
  have base: "base_indegree (dag s) = base_indegree g"
    using str by (simp add: pass_structure_def)
  have len: "length (adj g) = length (nodes g)"
    using wf by (simp add: wf_dag_def)
  have "ordered (adj g) (trace s @ [Started u])"
  proof (rule ordered_snoc[OF ord])
    fix v u'
    assume "Started u = Started v" "u' < length (adj g)" "v \<in> set (adj g ! u')"
    then show "Finished u' \<in> set (trace s)"
      using released_predecessor[OF wf cnt base _ un rel, of u'] len by simp
  qed
  then show ?thesis using fetch by simp
qed (use ord str in \<open>auto simp: pass_structure_def intro: ordered_snoc_other\<close>)

lemma pass_inv_step:
  assumes "wf_dag g" and "pass_inv g W s" and "step t s = Next s'"
  shows "pass_inv g W s'"
proof -
  have "caller s \<noteq> Entry"
    using assms(2) by (simp add: pass_inv_def pass_structure_def)
  then show ?thesis
    using assms pass_structure_step[of g W s t s'] pass_counts_step[of g W s t s']
      pass_ordered_step[of g W s t s']
    by (simp add: pass_inv_def)
qed

lemma pass_inv_run:
  "wf_dag g \<Longrightarrow> pass_inv g W s \<Longrightarrow> run sched s = Next s' \<Longrightarrow> pass_inv g W s'"
proof (induction sched arbitrary: s)
  case Nil
  then show ?case by simp
next
  case (Cons t sched)
  then show ?case
    by (auto split: step_result.splits dest: pass_inv_step)
qed

subsection \<open>The states a pass can reach\<close>

lemma nsum_zero: "nsum n (\<lambda>u. 0) = 0"
  by (simp add: nsum_def)

lemma pass_inv_reset:
  assumes wf: "wf_dag g" and ne: "nodes g \<noteq> []"
  shows "pass_inv g W ((execute_parallel_init W g)\<lparr>dag := reset g, caller := Seeding 0\<rparr>)"
proof -
  have len: "length (base_indegree g) = length (nodes g)"
    using wf by (simp add: wf_dag_def)
  have rp: "nodes (reset g) = nodes g" "adj (reset g) = adj g"
    "base_indegree (reset g) = base_indegree g"
    "current_indegree (reset g) = base_indegree g" "remaining (reset g) = length (nodes g)"
    using reset_wf_current[OF len] by (simp_all add: reset_eq)
  note defs = execute_parallel_init_def ThreadPool_new_def
  have str: "pass_structure g W ((execute_parallel_init W g)\<lparr>dag := reset g, caller := Seeding 0\<rparr>)"
    using len by (simp add: pass_structure_def defs rp seeded_def)
  have nrel: "\<not> released ((execute_parallel_init W g)\<lparr>dag := reset g, caller := Seeding 0\<rparr>) v"
    for v
    by (simp add: released_def seeded_def defs rp)
  have cnt: "pass_counts g ((execute_parallel_init W g)\<lparr>dag := reset g, caller := Seeding 0\<rparr>)"
    by (rule pass_countsI) (simp_all add: nrel, simp_all add: defs rp wsum_replicate_zero nsum_zero)
  show ?thesis
    using str cnt by (simp add: pass_inv_def defs ordered_def)
qed

lemma idle_blocked:
  assumes "caller s = Returned \<or> caller s = Wait \<and> remaining (dag s) \<noteq> 0"
    and "tasks (thread_pool s) = []" and "\<not> stop (thread_pool s)"
    and "\<forall>w \<in> set (workers (thread_pool s)). w = Waiting"
  shows "step t s = Blocked"
proof (cases t)
  case Caller
  then show ?thesis using assms(1) by (auto simp: caller_step_def)
next
  case (Worker i)
  have "workers (thread_pool s) ! i = Waiting" if "i < length (workers (thread_pool s))"
    using assms(4) that by simp
  then show ?thesis
    using Worker assms(2,3) by (auto simp: worker_step_def worker_fetch_def)
qed

lemma idle_run:
  assumes "caller s = Returned" and "tasks (thread_pool s) = []" and "\<not> stop (thread_pool s)"
    and "\<forall>w \<in> set (workers (thread_pool s)). w = Waiting" and "run sched s = Next s'"
  shows "s' = s"
proof (cases sched)
  case Nil
  then show ?thesis using assms(5) by simp
next
  case (Cons t ts)
  then show ?thesis
    using idle_blocked[of s t] assms by simp
qed

lemma execute_parallel_reach:
  assumes wf: "wf_dag g" and ex: "execute_parallel sched W g = Next s"
  shows "s = execute_parallel_init W g \<or>
         nodes g = [] \<and> s = (execute_parallel_init W g)\<lparr>caller := Returned\<rparr> \<or>
         nodes g \<noteq> [] \<and> pass_inv g W s"
proof (cases sched)
  case Nil
  then show ?thesis using ex by (simp add: execute_parallel_def)
next
  case (Cons t ts)
  let ?i = "execute_parallel_init W g"
  have ip: "caller ?i = Entry" "tasks (thread_pool ?i) = []" "\<not> stop (thread_pool ?i)"
    "workers (thread_pool ?i) = replicate W Waiting" "dag ?i = g"
    by (simp_all add: execute_parallel_init_def ThreadPool_new_def)
  from ex Cons obtain s1 where s1: "step t ?i = Next s1" and r: "run ts s1 = Next s"
    by (auto simp: execute_parallel_def split: step_result.splits)
  from s1 show ?thesis
  proof (cases rule: step_cases)
    case entry_empty
    have "s = s1"
      using idle_run[OF _ _ _ _ r] entry_empty ip by simp
    then show ?thesis using entry_empty ip by simp
  next
    case entry_reset
    then have "pass_inv g W s1"
      using pass_inv_reset[OF wf, of W] ip by simp
    then show ?thesis
      using pass_inv_run[OF wf _ r] entry_reset ip by simp
  qed (use ip in auto)
qed

subsection \<open>The state at return\<close>

lemma wsum_todo_zero:
  assumes "wsum (owns u) ws = 0"
  shows "wsum (todo u v) ws = 0"
proof -
  have "todo u v w = 0" if "w \<in> set ws" for w
  proof -
    have "owns u w = 0" using assms that by (simp add: wsum_zero_iff)
    then show ?thesis
      by (cases "(u, v, w)" rule: todo.cases) (auto split: if_splits)
  qed
  then show ?thesis by (simp add: wsum_zero_iff)
qed

lemma wsum_executes_le: "wsum (executes u) ws \<le> wsum (owns u) ws"
proof (induction ws)
  case Nil
  then show ?case by (simp add: wsum_def)
next
  case (Cons w ws)
  have "executes u w \<le> owns u w"
    by (cases "(u, w)" rule: executes.cases) auto
  then show ?case using Cons by (simp add: wsum_def)
qed

text \<open>When \<^verbatim>\<open>remaining\<close> is 0, every dispatch has completed.\<close>

lemma all_completed:
  assumes cnt: "pass_counts g s" and zero: "remaining (dag s) = 0" and u: "u < length (nodes g)"
  shows "count_list (trace s) (Completed u) = 1"
proof -
  let ?n = "length (nodes g)"
  have "nsum ?n (\<lambda>v. count_list (trace s) (Completed v)) = nsum ?n (\<lambda>v. 1)"
    using pass_countsD(7)[OF cnt] zero by (simp only: nsum_const_one)
  then show ?thesis
    using nsum_eq_termwise[of ?n "\<lambda>v. count_list (trace s) (Completed v)" "\<lambda>v. 1" u]
      completed_le_one[OF cnt] u
    by simp
qed

lemma completed_facts:
  assumes cnt: "pass_counts g s" and u: "u < length (nodes g)"
    and c: "count_list (trace s) (Completed u) = 1"
  shows "wsum (owns u) (workers (thread_pool s)) = 0"
    and "count_list (tasks (thread_pool s)) u = 0"
    and "count_list (trace s) (Started u) = 1"
    and "count_list (trace s) (Finished u) = 1"
    and "count_list (trace s) (Enqueued u) = 1"
    and "count_list (trace s) (Decremented u v) = count_list (adj g ! u) v"
proof -
  have a: "wsum (owns u) (workers (thread_pool s)) = 0 \<and> count_list (tasks (thread_pool s)) u = 0"
    using pass_countsD(1)[OF cnt u] c by (simp split: if_splits)
  then show o: "wsum (owns u) (workers (thread_pool s)) = 0"
    and "count_list (tasks (thread_pool s)) u = 0"
    by simp_all
  show "count_list (trace s) (Started u) = 1"
    using pass_countsD(2)[OF cnt, of u] a c by simp
  show f: "count_list (trace s) (Finished u) = 1"
    using pass_countsD(3)[OF cnt, of u] wsum_executes_le[of u "workers (thread_pool s)"] a c
    by simp
  show "count_list (trace s) (Enqueued u) = 1"
    using pass_countsD(4)[OF cnt, of u] a c by simp
  show "count_list (trace s) (Decremented u v) = count_list (adj g ! u) v"
    using pass_countsD(5)[OF cnt u, of v] f wsum_todo_zero[OF o, of v] by simp
qed

lemma counters_zero_at_end:
  assumes wf: "wf_dag g" and cnt: "pass_counts g s" and zero: "remaining (dag s) = 0"
    and v: "v < length (nodes g)"
  shows "current_indegree (dag s) ! v = 0"
proof -
  let ?n = "length (nodes g)"
  have "nsum ?n (\<lambda>u. count_list (trace s) (Decremented u v)) =
      nsum ?n (\<lambda>u. count_list (adj g ! u) v)"
    using completed_facts(6)[OF cnt _ all_completed[OF cnt zero]]
    by (intro nsum_cong) simp
  then show ?thesis
    using pass_countsD(6)[OF cnt v] wf_dag_base[OF wf v] by simp
qed

lemma at_most_once:
  assumes str: "pass_structure g W s" and cnt: "pass_counts g s"
  shows "count_list (trace s) (Started u) \<le> 1" and "count_list (trace s) (Enqueued u) \<le> 1"
    and "length (nodes g) \<le> u \<Longrightarrow> count_list (trace s) (Started u) = 0"
    and "length (nodes g) \<le> u \<Longrightarrow> count_list (trace s) (Enqueued u) = 0"
proof -
  let ?n = "length (nodes g)"
  have out: "wsum (owns u) (workers (thread_pool s)) = 0 \<and> count_list (tasks (thread_pool s)) u = 0 \<and>
      count_list (trace s) (Completed u) = 0" if "?n \<le> u"
  proof -
    have "owns u w = 0" if w: "w \<in> set (workers (thread_pool s))" for w
    proof -
      have "pc_in_range ?n w" using str w by (simp add: pass_structure_def)
      then show ?thesis
        using \<open>?n \<le> u\<close> by (cases "(u, w)" rule: owns.cases) auto
    qed
    moreover have "u \<notin> set (tasks (thread_pool s))"
      using str that by (auto simp: pass_structure_def)
    ultimately show ?thesis
      using pass_countsD(9)[OF cnt that] by (simp add: wsum_zero_iff count_list_0_iff)
  qed
  show "count_list (trace s) (Started u) \<le> 1"
  proof (cases "u < ?n")
    case True
    then show ?thesis
      using pass_countsD(1)[OF cnt True] pass_countsD(2)[OF cnt, of u] by (simp split: if_splits)
  next
    case False
    then show ?thesis using out pass_countsD(2)[OF cnt, of u] by simp
  qed
  show "count_list (trace s) (Enqueued u) \<le> 1"
  proof (cases "u < ?n")
    case True
    then show ?thesis
      using pass_countsD(1)[OF cnt True] pass_countsD(4)[OF cnt, of u] by (simp split: if_splits)
  next
    case False
    then show ?thesis using out pass_countsD(4)[OF cnt, of u] by simp
  qed
  show "count_list (trace s) (Started u) = 0" if "?n \<le> u"
    using out[OF that] pass_countsD(2)[OF cnt, of u] by simp
  show "count_list (trace s) (Enqueued u) = 0" if "?n \<le> u"
    using out[OF that] pass_countsD(4)[OF cnt, of u] by simp
qed

subsection \<open>Every step uses up the bound\<close>

lemma wsum_steps_old:
  "i < length ws \<Longrightarrow>
   wsum (worker_steps a) ws = worker_steps a (ws ! i) + others i (worker_steps a) ws"
  by (rule wsum_others) simp_all

lemma wsum_steps_new:
  "i < length ws \<Longrightarrow>
   wsum (worker_steps a) (ws[i := w]) = worker_steps a w + others i (worker_steps a) ws"
  by (rule wsum_others_update) simp_all

lemma steps_left_eq:
  assumes "nodes (dag s) = nodes g" and "adj (dag s) = adj g"
  shows "steps_left s =
     caller_steps (length (nodes g)) (caller s) +
     nsum (length (nodes g))
       (\<lambda>u. if count_list (trace s) (Started u) = 0 then 2 * length (adj g ! u) + 4 else 0) +
     wsum (worker_steps (adj g)) (workers (thread_pool s))"
  by (simp add: steps_left_def assms cong: if_cong)

lemma steps_left_step:
  assumes wf: "wf_dag g" and inv: "pass_inv g W s" and st: "step t s = Next s'"
  shows "steps_left s' < steps_left s"
proof -
  let ?n = "length (nodes g)"
  let ?K = "\<lambda>u. 2 * length (adj g ! u) + 4"
  have str: "pass_structure g W s" and cnt: "pass_counts g s"
    using inv by (simp_all add: pass_inv_def)
  have sg: "nodes (dag s) = nodes g" "adj (dag s) = adj g" "caller s \<noteq> Entry"
    "seeded s \<le> ?n" "\<not> stop (thread_pool s)"
    using str by (simp_all add: pass_structure_def)
  have "pass_structure g W s'"
    using pass_structure_step[OF wf str st sg(3)] .
  then have sg': "nodes (dag s') = nodes g" "adj (dag s') = adj g"
    by (simp_all add: pass_structure_def)
  note L = steps_left_eq[OF sg(1,2)] and L' = steps_left_eq[OF sg']
  show ?thesis
    using st
  proof (cases rule: step_cases)
    case entry_empty
    then show ?thesis using sg by simp
  next
    case entry_reset
    then show ?thesis using sg by simp
  next
    case (seed_enqueue i)
    have p: "caller s' = Seeding (i + 1)" "trace s' = trace s @ [Enqueued i]"
      "workers (thread_pool s') = workers (thread_pool s)"
      by (simp_all add: seed_enqueue)
    show ?thesis
      unfolding L L' using seed_enqueue(2,3) sg by (simp add: p count_list_snoc)
  next
    case (seed_skip i)
    have p: "caller s' = Seeding (i + 1)" "trace s' = trace s"
      "workers (thread_pool s') = workers (thread_pool s)"
      by (simp_all add: seed_skip)
    show ?thesis
      unfolding L L' using seed_skip(2,3) sg by (simp add: p)
  next
    case (seed_done i)
    have p: "caller s' = Wait" "trace s' = trace s"
      "workers (thread_pool s') = workers (thread_pool s)"
      by (simp_all add: seed_done)
    have "i = ?n" using seed_done sg by (simp add: seeded_def)
    then show ?thesis
      unfolding L L' using seed_done(2) by (simp add: p)
  next
    case wait_done
    have p: "caller s' = Returned" "trace s' = trace s"
      "workers (thread_pool s') = workers (thread_pool s)"
      by (simp_all add: wait_done)
    show ?thesis
      unfolding L L' using wait_done(2) by (simp add: p)
  next
    case (quit i)
    then show ?thesis using sg by simp
  next
    case (fetch i u q)
    have u: "u < ?n" using fetch sg by simp
    have "count_list (tasks (thread_pool s)) u \<noteq> 0" using fetch by simp
    then have "wsum (owns u) (workers (thread_pool s)) = 0 \<and> count_list (trace s) (Completed u) = 0"
      using pass_countsD(1)[OF cnt u] by (simp split: if_splits)
    then have started0: "count_list (trace s) (Started u) = 0"
      using pass_countsD(2)[OF cnt, of u] by simp
    have "nsum ?n (\<lambda>u'. if count_list (trace s) (Started u') = 0 then ?K u' else 0) =
        nsum ?n (\<lambda>u'. (if count_list (trace s @ [Started u]) (Started u') = 0 then ?K u' else 0) +
          (if u' = u then ?K u else 0))"
      using started0 by (intro nsum_cong) (simp add: count_list_snoc)
    also have "\<dots> = nsum ?n (\<lambda>u'. if count_list (trace s @ [Started u]) (Started u') = 0
          then ?K u' else 0) + ?K u"
      using u by (simp only: nsum_bump if_True)
    finally have ns: "nsum ?n (\<lambda>u'. if count_list (trace s) (Started u') = 0 then ?K u' else 0) =
        nsum ?n (\<lambda>u'. if count_list (trace s @ [Started u]) (Started u') = 0
          then ?K u' else 0) + ?K u" .
    have p: "workers (thread_pool s') = (workers (thread_pool s))[i := Running (Executing u)]"
      "trace s' = trace s @ [Started u]" "caller s' = caller s"
      by (simp_all add: fetch)
    show ?thesis
      unfolding L L' p ns
      by (simp add: wsum_steps_old[OF fetch(2)] wsum_steps_new[OF fetch(2)] fetch(3))
  next
    case (finish i u)
    have p: "workers (thread_pool s') = (workers (thread_pool s))[i := Running (Resolving u (adj g ! u))]"
      "trace s' = trace s @ [Finished u]" "caller s' = caller s"
      by (simp_all add: finish sg)
    show ?thesis
      unfolding L L' p
      by (simp add: wsum_steps_old[OF finish(2)] wsum_steps_new[OF finish(2)] finish(3)
          count_list_snoc)
  next
    case (decrement i u v vs)
    have p: "workers (thread_pool s') = (workers (thread_pool s))
         [i := Running (if current_indegree (dag s) ! v = 1 then Enqueuing u v vs
                        else Resolving u vs)]"
      "trace s' = trace s @ [Decremented u v]" "caller s' = caller s"
      by (simp_all add: decrement)
    show ?thesis
      unfolding L L' p
      by (simp add: wsum_steps_old[OF decrement(2)] wsum_steps_new[OF decrement(2)] decrement(3)
          count_list_snoc)
  next
    case (enqueue i u v vs)
    have p: "workers (thread_pool s') = (workers (thread_pool s))[i := Running (Resolving u vs)]"
      "trace s' = trace s @ [Enqueued v]" "caller s' = caller s"
      by (simp_all add: enqueue)
    show ?thesis
      unfolding L L' p
      by (simp add: wsum_steps_old[OF enqueue(2)] wsum_steps_new[OF enqueue(2)] enqueue(3)
          count_list_snoc)
  next
    case (complete i u)
    have p: "workers (thread_pool s') = (workers (thread_pool s))
         [i := if remaining (dag s) = 1 then Running (Notifying u) else Waiting]"
      "trace s' = trace s @ [Completed u]" "caller s' = caller s"
      by (simp_all add: complete)
    show ?thesis
      unfolding L L' p
      by (simp add: wsum_steps_old[OF complete(2)] wsum_steps_new[OF complete(2)] complete(3)
          count_list_snoc)
  next
    case (notify i u)
    have p: "workers (thread_pool s') = (workers (thread_pool s))[i := Waiting]"
      "trace s' = trace s @ [Notified u]" "caller s' = caller s"
      by (simp_all add: notify)
    show ?thesis
      unfolding L L' p
      by (simp add: wsum_steps_old[OF notify(2)] wsum_steps_new[OF notify(2)] notify(3)
          count_list_snoc)
  qed
qed

lemma run_bound:
  "wf_dag g \<Longrightarrow> pass_inv g W s \<Longrightarrow> run sched s = Next s' \<Longrightarrow>
   length sched + steps_left s' \<le> steps_left s"
proof (induction sched arbitrary: s)
  case Nil
  then show ?case by simp
next
  case (Cons t sched)
  from Cons.prems(3) obtain s1 where s1: "step t s = Next s1" and r: "run sched s1 = Next s'"
    by (auto split: step_result.splits)
  have "length sched + steps_left s' \<le> steps_left s1"
    using Cons.IH[OF Cons.prems(1) pass_inv_step[OF Cons.prems(1,2) s1] r] .
  then show ?case
    using steps_left_step[OF Cons.prems(1,2) s1] by simp
qed

lemma execute_parallel_bound:
  assumes wf: "wf_dag g" and ex: "execute_parallel sched W g = Next s"
  shows "length sched + steps_left s \<le> step_bound g"
proof -
  let ?i = "execute_parallel_init W g"
  have ip: "caller ?i = Entry" "tasks (thread_pool ?i) = []" "\<not> stop (thread_pool ?i)"
    "workers (thread_pool ?i) = replicate W Waiting" "dag ?i = g" "trace ?i = []"
    by (simp_all add: execute_parallel_init_def ThreadPool_new_def)
  have init: "steps_left ?i = step_bound g"
    by (simp add: steps_left_def step_bound_def ip wsum_replicate_zero)
  show ?thesis
  proof (cases sched)
    case Nil
    then show ?thesis using ex init by (simp add: execute_parallel_def)
  next
    case (Cons t ts)
    from ex Cons obtain s1 where s1: "step t ?i = Next s1" and r: "run ts s1 = Next s"
      by (auto simp: execute_parallel_def split: step_result.splits)
    from s1 show ?thesis
    proof (cases rule: step_cases)
      case entry_empty
      have "ts = []"
      proof (cases ts)
        case (Cons t' ts')
        have "step t' s1 = Blocked"
          using entry_empty ip by (intro idle_blocked) simp_all
        then show ?thesis using r Cons by simp
      qed simp
      then have "s = ?i\<lparr>caller := Returned\<rparr>"
        using r entry_empty by simp
      then have "steps_left s = 0"
        using entry_empty ip by (simp add: steps_left_def wsum_replicate_zero nsum_def)
      then show ?thesis
        using Cons \<open>ts = []\<close> by (simp add: step_bound_def)
    next
      case entry_reset
      then have "pass_inv g W s1"
        using pass_inv_reset[OF wf, of W] ip by simp
      then have "length ts + steps_left s \<le> steps_left s1"
        using run_bound[OF wf _ r] by simp
      moreover have "steps_left s1 + 1 = step_bound g"
        using entry_reset ip
        by (simp add: steps_left_def step_bound_def reset_eq wsum_replicate_zero)
      ultimately show ?thesis using Cons by simp
    qed (use ip in auto)
  qed
qed

subsection \<open>A pass that has not returned can take a step\<close>

lemma pass_progress:
  assumes wf: "wf_dag g" and ac: "acyclic (edges g)" and W: "0 < W"
    and inv: "pass_inv g W s" and nr: "caller s \<noteq> Returned"
  shows "\<exists>t s'. step t s = Next s'"
proof -
  let ?n = "length (nodes g)"
  let ?ws = "workers (thread_pool s)"
  have str: "pass_structure g W s" and cnt: "pass_counts g s"
    using inv by (simp_all add: pass_inv_def)
  have sg: "nodes (dag s) = nodes g" "adj (dag s) = adj g"
    "base_indegree (dag s) = base_indegree g"
    "length (current_indegree (dag s)) = ?n" "caller s \<noteq> Entry" "seeded s \<le> ?n"
    "\<not> stop (thread_pool s)" "length ?ws = W"
    using str by (simp_all add: pass_structure_def)
  have len: "length (adj g) = ?n" "length (base_indegree g) = ?n"
    using wf by (simp_all add: wf_dag_def)
  have rng: "pc_in_range ?n (?ws ! i)" if "i < length ?ws" for i
    using str that by (simp add: pass_structure_def)
  show ?thesis
  proof (cases "caller s")
    case Entry
    then show ?thesis using sg by simp
  next
    case (Seeding i)
    then have "\<exists>s'. step Caller s = Next s'"
      using sg len by (simp add: caller_step_def)
    then show ?thesis by blast
  next
    case Returned
    then show ?thesis using nr by simp
  next
    case Wait
    show ?thesis
    proof (cases "remaining (dag s) = 0")
      case True
      then have "\<exists>s'. step Caller s = Next s'"
        using Wait by (simp add: caller_step_def)
      then show ?thesis by blast
    next
      case rem: False
      show ?thesis
      proof (cases "\<exists>i < length ?ws. \<exists>pc. ?ws ! i = Running pc")
        case True
        then obtain i pc where i: "i < length ?ws" and pc: "?ws ! i = Running pc" by blast
        have "\<exists>s'. dispatch_step i pc s = Next s'"
        proof (cases pc)
          case (Executing u)
          then show ?thesis using rng[OF i] pc sg len nr by simp
        next
          case (Resolving u vs)
          then show ?thesis
            using rng[OF i] pc sg nr by (cases vs) (simp_all add: Let_def)
        next
          case (Enqueuing u v vs)
          then show ?thesis using nr by simp
        next
          case (Notifying u)
          then show ?thesis using nr by simp
        qed
        then have "\<exists>s'. step (Worker i) s = Next s'"
          using i pc by (simp add: worker_step_def)
        then show ?thesis by blast
      next
        case False
        have idle: "w = Waiting" if "w \<in> set ?ws" for w
        proof -
          from that have "\<exists>i < length ?ws. ?ws ! i = w"
            by (simp only: in_set_conv_nth)
          then obtain i where i: "i < length ?ws" and w: "?ws ! i = w" by blast
          have "pc_in_range ?n w" using rng[OF i] by (simp only: w)
          then have ne: "w \<noteq> Exited" by (cases w) simp_all
          have nr: "w \<noteq> Running pc" for pc
          proof
            assume "w = Running pc"
            then have "?ws ! i = Running pc" by (simp only: w)
            then have "\<exists>i < length ?ws. \<exists>pc. ?ws ! i = Running pc" using i by blast
            then show False using False by simp
          qed
          show ?thesis
          proof (cases w)
            case (Running pc)
            then show ?thesis using nr[of pc] by simp
          qed (use ne in simp_all)
        qed
        show ?thesis
        proof (cases "tasks (thread_pool s)")
          case (Cons u q)
          have "?ws ! 0 = Waiting" using idle[of "?ws ! 0"] W sg by simp
          moreover have "u < ?n" using str Cons by (simp add: pass_structure_def)
          ultimately have "\<exists>s'. step (Worker 0) s = Next s'"
            using W sg Cons nr by (simp add: worker_step_def worker_fetch_def)
          then show ?thesis by blast
        next
          case Nil
          have w0: "wsum f ?ws = 0" if f0: "f Waiting = 0" for f :: "dispatch_pc worker \<Rightarrow> nat"
          proof -
            have "f w = 0" if "w \<in> set ?ws" for w
              using idle[OF that] f0 by simp
            then show ?thesis by (simp add: wsum_zero_iff)
          qed
          have comp: "count_list (trace s) (Completed v) = (if released s v then 1 else 0)"
            if "v < ?n" for v
            using pass_countsD(1)[OF cnt that] Nil by (simp add: w0)
          have "\<exists>v < ?n. \<not> released s v"
          proof (rule ccontr)
            assume "\<not> (\<exists>v < ?n. \<not> released s v)"
            then have "nsum ?n (\<lambda>v. count_list (trace s) (Completed v)) = nsum ?n (\<lambda>v. 1)"
              using comp by (intro nsum_cong) simp
            then have "nsum ?n (\<lambda>v. count_list (trace s) (Completed v)) = ?n"
              by (simp only: nsum_const_one)
            then show False
              using pass_countsD(7)[OF cnt] rem by simp
          qed
          then obtain v0 where v0n: "v0 < ?n" and v0r: "\<not> released s v0" by blast
          define U where "U = {v. v < ?n \<and> \<not> released s v}"
          have v0: "v0 \<in> U" using v0n v0r by (simp add: U_def)
          have wfe: "wf (edges g)"
            using ac by (intro finite_acyclic_wf) (simp_all add: edges_def)
          obtain z where z: "z \<in> U" and zmin: "\<And>y. (y, z) \<in> edges g \<Longrightarrow> y \<notin> U"
            using wfE_min[OF wfe v0] by blast
          have zn: "z < ?n" and zr: "\<not> released s z" using z by (simp_all add: U_def)
          have "seeded s = ?n" using Wait sg by (simp add: seeded_def)
          then have cz: "current_indegree (dag s) ! z \<noteq> 0"
            using zr zn sg(3) by (simp add: released_def split: if_splits)
          have "\<exists>u < ?n. count_list (trace s) (Decremented u z) \<noteq> count_list (adj g ! u) z"
          proof (rule ccontr)
            assume "\<not> (\<exists>u < ?n. count_list (trace s) (Decremented u z) \<noteq> count_list (adj g ! u) z)"
            then have "nsum ?n (\<lambda>u. count_list (trace s) (Decremented u z)) =
                nsum ?n (\<lambda>u. count_list (adj g ! u) z)"
              by (intro nsum_cong) simp
            then show False
              using pass_countsD(6)[OF cnt zn] wf_dag_base[OF wf zn] cz by simp
          qed
          then obtain u where u: "u < ?n"
            and ne: "count_list (trace s) (Decremented u z) \<noteq> count_list (adj g ! u) z"
            by blast
          have "count_list (adj g ! u) z \<noteq> 0"
            using ne pass_countsD(5)[OF cnt u, of z] by (simp split: if_splits)
          then have "(u, z) \<in> edges g"
            using u len by (simp add: edges_iff count_list_0_iff)
          then have "released s u" using zmin[of u] u by (simp add: U_def)
          then have "count_list (trace s) (Completed u) = 1" using comp[OF u] by simp
          then show ?thesis
            using completed_facts(6)[OF cnt u, of z] ne by simp
        qed
      qed
    qed
  qed
qed

lemma pass_can_return:
  assumes wf: "wf_dag g" and ac: "acyclic (edges g)" and W: "0 < W"
  shows "pass_inv g W s \<Longrightarrow> \<exists>sched s'. run sched s = Next s' \<and> caller s' = Returned"
proof (induction "steps_left s" arbitrary: s rule: less_induct)
  case less
  show ?case
  proof (cases "caller s = Returned")
    case True
    then have "run [] s = Next s \<and> caller s = Returned" by simp
    then show ?thesis by blast
  next
    case False
    then obtain t s1 where s1: "step t s = Next s1"
      using pass_progress[OF wf ac W less.prems] by blast
    have "pass_inv g W s1" using pass_inv_step[OF wf less.prems s1] .
    moreover have "steps_left s1 < steps_left s"
      using steps_left_step[OF wf less.prems s1] .
    ultimately obtain sched s' where "run sched s1 = Next s'" "caller s' = Returned"
      using less.hyps by blast
    then have "run (t # sched) s = Next s' \<and> caller s' = Returned"
      using s1 by simp
    then show ?thesis by blast
  qed
qed

subsection \<open>A pass over the diamond\<close>

lemma acyclic_increasing:
  assumes "\<And>u v. (u, v) \<in> r \<Longrightarrow> (u :: nat) < v"
  shows "acyclic r"
proof -
  have "r \<subseteq> less_than" using assms by auto
  then show ?thesis
    using acyclic_subset[OF wf_acyclic[OF wf_less_than]] by blast
qed

lemma edges_diamond: "edges diamond = {(0, 1), (0, 2), (1, 3), (2, 3)}"
  by (auto simp: edges_iff diamond_eq nth_Cons' less_Suc_eq numeral_eq_Suc split: if_splits)

lemma acyclic_diamond: "acyclic (edges diamond)"
  by (rule acyclic_increasing) (auto simp: edges_diamond)

lemma diamond_run: "execute_parallel diamond_schedule 2 diamond = Next diamond_final"
  by (simp add: execute_parallel_def execute_parallel_init_def diamond_schedule_def
      diamond_final_def diamond_trace_def diamond_eq ThreadPool_new_def caller_step_def
      worker_step_def worker_fetch_def set_worker_def enqueue_def reset_eq fetch_sub_int_def
      fetch_sub_size_def numeral_2_eq_2)

text \<open>
  When the calling thread returns before worker 0 has notified, the notification has
  no defined behaviour.
\<close>

lemma diamond_run_late: "execute_parallel diamond_schedule_late 2 diamond = Undefined"
  by (simp add: execute_parallel_def execute_parallel_init_def diamond_schedule_late_def
      diamond_eq ThreadPool_new_def caller_step_def
      worker_step_def worker_fetch_def set_worker_def enqueue_def reset_eq fetch_sub_int_def
      fetch_sub_size_def numeral_2_eq_2)

subsection \<open>A pass on a pool without workers\<close>

lemma starved_step:
  assumes "step t s = Next s'" and "starved g s" and "nodes g \<noteq> []"
  shows "starved g s'"
  using assms(1)
  by (cases rule: step_cases) (use assms(2,3) in \<open>auto simp: starved_def reset_eq\<close>)

lemma starved_run:
  assumes "nodes g \<noteq> []"
  shows "run sched s = Next s' \<Longrightarrow> starved g s \<Longrightarrow> starved g s'"
proof (induction sched arbitrary: s)
  case Nil
  then show ?case by simp
next
  case (Cons t sched)
  then show ?case
    using assms by (auto split: step_result.splits dest: starved_step)
qed

lemma starved_init: "starved g (execute_parallel_init 0 g)"
  by (simp add: starved_def execute_parallel_init_def ThreadPool_new_def)

lemma starved_never:
  assumes "nodes g \<noteq> []" and "execute_parallel sched 0 g = Next s"
  shows "caller s \<noteq> Returned" and "count_list (trace s) (Started u) = 0"
proof -
  have st: "starved g s"
    using starved_run[OF assms(1) _ starved_init] assms(2) by (simp add: execute_parallel_def)
  then show "caller s \<noteq> Returned" by (simp add: starved_def)
  have "Started u \<notin> set (trace s)"
    using st by (auto simp: starved_def)
  then show "count_list (trace s) (Started u) = 0"
    by (simp add: count_list_0_iff)
qed

lemma single_eq:
  "single =
     \<lparr>nodes = [\<lparr>data = 0, output_any = Any_empty\<rparr>], adj = [[]], base_indegree = [0],
      current_indegree = [], remaining = 0\<rparr>"
  by (simp add: single_def DAG_default_def add_node_record)

lemma wf_dag_single: "wf_dag single"
  by (simp add: single_eq wf_dag_def INT_MAX_def)

lemma acyclic_single: "acyclic (edges single)"
  by (rule acyclic_increasing) (auto simp: edges_iff single_eq)

lemma single_run: "execute_parallel [Caller, Caller, Caller] 0 single = Next single_stuck"
  by (simp add: execute_parallel_def execute_parallel_init_def single_stuck_def single_eq
      ThreadPool_new_def caller_step_def enqueue_def reset_eq)

lemma single_blocked: "step t single_stuck = Blocked"
  by (cases t) (simp_all add: single_stuck_def single_eq caller_step_def worker_step_def)

subsection \<open>The claims about a pass\<close>

lemma run_append:
  "run (a @ b) s = (case run a s of Next s' \<Rightarrow> run b s' | Blocked \<Rightarrow> Blocked | Undefined \<Rightarrow> Undefined)"
  by (induction a arbitrary: s) (simp_all split: step_result.splits)

lemma execute_parallel_append:
  "execute_parallel sched W g = Next s \<Longrightarrow> execute_parallel (sched @ sched') W g = run sched' s"
  by (simp add: execute_parallel_def run_append)

lemma init_facts:
  "caller (execute_parallel_init W g) = Entry"
  "trace (execute_parallel_init W g) = []"
  "dag (execute_parallel_init W g) = g"
  "tasks (thread_pool (execute_parallel_init W g)) = []"
  "workers (thread_pool (execute_parallel_init W g)) = replicate W Waiting"
  "\<not> stop (thread_pool (execute_parallel_init W g))"
  by (simp_all add: execute_parallel_init_def ThreadPool_new_def)

lemma init_can_return:
  assumes wf: "wf_dag g" and ac: "acyclic (edges g)" and W: "0 < W"
  shows "\<exists>sched s'. run sched (execute_parallel_init W g) = Next s' \<and> caller s' = Returned"
proof (cases "nodes g = []")
  case True
  then have "run [Caller] (execute_parallel_init W g) =
      Next ((execute_parallel_init W g)\<lparr>caller := Returned\<rparr>)"
    by (simp add: caller_step_def init_facts)
  moreover have "caller ((execute_parallel_init W g)\<lparr>caller := Returned\<rparr>) = Returned"
    by simp
  ultimately show ?thesis by blast
next
  case False
  let ?s1 = "(execute_parallel_init W g)\<lparr>dag := reset g, caller := Seeding 0\<rparr>"
  have s1: "step Caller (execute_parallel_init W g) = Next ?s1"
    using False by (simp add: caller_step_def init_facts)
  obtain sched s' where "run sched ?s1 = Next s'" "caller s' = Returned"
    using pass_can_return[OF wf ac W pass_inv_reset[OF wf False]] by blast
  then have "run (Caller # sched) (execute_parallel_init W g) = Next s' \<and> caller s' = Returned"
    using s1 by simp
  then show ?thesis by blast
qed

text \<open>
  What holds of every state that \<^verbatim>\<open>execute_parallel\<close> reaches on a pool with at least
  one worker.
\<close>

lemma execute_parallel_reached:
  assumes "wf_dag g" and "acyclic (edges g)" and "0 < W"
    and "execute_parallel sched W g = Next s"
  shows "(\<forall>u. count_list (trace s) (Started u) \<le> 1 \<and> count_list (trace s) (Enqueued u) \<le> 1) \<and>
         (\<forall>u. length (nodes g) \<le> u \<longrightarrow>
            count_list (trace s) (Started u) = 0 \<and> count_list (trace s) (Enqueued u) = 0) \<and>
         (caller s = Returned \<longrightarrow>
            (\<forall>u < length (nodes g).
               count_list (trace s) (Enqueued u) = 1 \<and> count_list (trace s) (Started u) = 1 \<and>
               count_list (trace s) (Finished u) = 1)) \<and>
         (caller s \<noteq> Returned \<longrightarrow> (\<exists>t s'. step t s = Next s')) \<and>
         (\<exists>sched' s'. run sched' s = Next s' \<and> caller s' = Returned) \<and>
         length sched + steps_left s \<le> step_bound g"
proof -
  note wf = assms(1) and ac = assms(2) and W = assms(3) and ex = assms(4)
  have bound: "length sched + steps_left s \<le> step_bound g"
    using execute_parallel_bound[OF wf ex] .
  consider (init) "s = execute_parallel_init W g"
    | (empty) "nodes g = []" "s = (execute_parallel_init W g)\<lparr>caller := Returned\<rparr>"
    | (inv) "nodes g \<noteq> []" "pass_inv g W s"
    using execute_parallel_reach[OF wf ex] by blast
  then show ?thesis
  proof cases
    case init
    have "\<exists>s'. step Caller s = Next s'"
      by (simp add: init caller_step_def init_facts)
    then have "\<exists>t s'. step t s = Next s'" by blast
    then show ?thesis
      using bound init_can_return[OF wf ac W] by (simp add: init init_facts)
  next
    case empty
    have "run [] s = Next s \<and> caller s = Returned" by (simp add: empty)
    then have "\<exists>sched' s'. run sched' s = Next s' \<and> caller s' = Returned" by blast
    then show ?thesis
      using bound by (simp add: empty init_facts)
  next
    case inv
    have str: "pass_structure g W s" and cnt: "pass_counts g s"
      using inv by (simp_all add: pass_inv_def)
    have a: "\<forall>u. count_list (trace s) (Started u) \<le> 1 \<and> count_list (trace s) (Enqueued u) \<le> 1"
      using at_most_once(1,2)[OF str cnt] by simp
    have b: "\<forall>u. length (nodes g) \<le> u \<longrightarrow>
        count_list (trace s) (Started u) = 0 \<and> count_list (trace s) (Enqueued u) = 0"
      using at_most_once(3,4)[OF str cnt] by simp
    have c: "caller s = Returned \<longrightarrow>
        (\<forall>u < length (nodes g).
           count_list (trace s) (Enqueued u) = 1 \<and> count_list (trace s) (Started u) = 1 \<and>
           count_list (trace s) (Finished u) = 1)"
    proof (intro impI allI)
      fix u
      assume r: "caller s = Returned" and u: "u < length (nodes g)"
      have "remaining (dag s) = 0" using pass_countsD(8)[OF cnt r] .
      then have "count_list (trace s) (Completed u) = 1"
        using all_completed[OF cnt _ u] by simp
      then show "count_list (trace s) (Enqueued u) = 1 \<and> count_list (trace s) (Started u) = 1 \<and>
          count_list (trace s) (Finished u) = 1"
        using completed_facts(3,4,5)[OF cnt u] by simp
    qed
    have d: "caller s \<noteq> Returned \<longrightarrow> (\<exists>t s'. step t s = Next s')"
      using pass_progress[OF wf ac W inv(2)] by blast
    have e: "\<exists>sched' s'. run sched' s = Next s' \<and> caller s' = Returned"
      using pass_can_return[OF wf ac W inv(2)] .
    show ?thesis using a b c d e bound by blast
  qed
qed

text \<open>
  Claim C1 (as it holds of the code).  Take a graph that satisfies the class invariant
  and is acyclic, and a pool with at least one worker; the work function returns and
  leaves the graph alone.  Then some interleaving of the calling thread and the workers
  (a schedule) takes \<^verbatim>\<open>execute_parallel\<close> to its return.  And for every schedule that
  \<^verbatim>\<open>execute_parallel\<close> follows to a state \<open>s\<close>: no node has been enqueued more than
  once or started more than once, and nothing that is not a node has been enqueued or
  started; if the call has returned, every node has been enqueued exactly once, the work
  function has been called exactly once for it and has returned once; if the call has
  not returned, the schedule can be extended by a step of some thread; it can be
  extended to a schedule on which the call returns; and the schedule is no longer than
  a bound that depends on the graph alone, so no execution goes on for ever.
\<close>

theorem execute_parallel_runs_each_node_once:
  assumes "wf_dag g" and "acyclic (edges g)" and "0 < W"
  shows "(\<exists>sched s. execute_parallel sched W g = Next s \<and> caller s = Returned) \<and>
         (\<forall>sched s. execute_parallel sched W g = Next s \<longrightarrow>
            (\<forall>u. count_list (trace s) (Started u) \<le> 1 \<and> count_list (trace s) (Enqueued u) \<le> 1) \<and>
            (\<forall>u. length (nodes g) \<le> u \<longrightarrow>
               count_list (trace s) (Started u) = 0 \<and> count_list (trace s) (Enqueued u) = 0) \<and>
            (caller s = Returned \<longrightarrow>
               (\<forall>u < length (nodes g).
                  count_list (trace s) (Enqueued u) = 1 \<and> count_list (trace s) (Started u) = 1 \<and>
                  count_list (trace s) (Finished u) = 1)) \<and>
            (caller s \<noteq> Returned \<longrightarrow>
               (\<exists>t s'. execute_parallel (sched @ [t]) W g = Next s')) \<and>
            (\<exists>sched' s'. execute_parallel (sched @ sched') W g = Next s' \<and> caller s' = Returned) \<and>
            length sched + steps_left s \<le> step_bound g)"
proof (intro conjI allI impI)
  show "\<exists>sched s. execute_parallel sched W g = Next s \<and> caller s = Returned"
    using init_can_return[OF assms] by (simp add: execute_parallel_def)
next
  fix sched s
  assume ex: "execute_parallel sched W g = Next s"
  note r = execute_parallel_reached[OF assms ex]
  show "count_list (trace s) (Started u) \<le> 1" for u using r by blast
  show "count_list (trace s) (Enqueued u) \<le> 1" for u using r by blast
  show "count_list (trace s) (Started u) = 0" if "length (nodes g) \<le> u" for u
    using r that by blast
  show "count_list (trace s) (Enqueued u) = 0" if "length (nodes g) \<le> u" for u
    using r that by blast
  show "count_list (trace s) (Enqueued u) = 1"
    if "caller s = Returned" "u < length (nodes g)" for u
    using r that by blast
  show "count_list (trace s) (Started u) = 1"
    if "caller s = Returned" "u < length (nodes g)" for u
    using r that by blast
  show "count_list (trace s) (Finished u) = 1"
    if "caller s = Returned" "u < length (nodes g)" for u
    using r that by blast
  show "\<exists>t s'. execute_parallel (sched @ [t]) W g = Next s'" if nr: "caller s \<noteq> Returned"
  proof -
    obtain t s' where "step t s = Next s'" using r nr by blast
    then have "execute_parallel (sched @ [t]) W g = Next s'"
      by (simp add: execute_parallel_append[OF ex])
    then show ?thesis by blast
  qed
  show "\<exists>sched' s'. execute_parallel (sched @ sched') W g = Next s' \<and> caller s' = Returned"
  proof -
    obtain sched' s' where "run sched' s = Next s'" "caller s' = Returned" using r by blast
    then have "execute_parallel (sched @ sched') W g = Next s' \<and> caller s' = Returned"
      by (simp add: execute_parallel_append[OF ex])
    then show ?thesis by blast
  qed
  show "length sched + steps_left s \<le> step_bound g" using r by blast
qed

theorem execute_parallel_runs_each_node_once_witness:
  "wf_dag diamond \<and> acyclic (edges diamond) \<and>
   execute_parallel diamond_schedule 2 diamond = Next diamond_final \<and>
   caller diamond_final = Returned \<and>
   count_list (trace diamond_final) (Enqueued 0) = 1 \<and>
   count_list (trace diamond_final) (Started 0) = 1 \<and>
   count_list (trace diamond_final) (Started 1) = 1 \<and>
   count_list (trace diamond_final) (Started 2) = 1 \<and>
   count_list (trace diamond_final) (Enqueued 3) = 1 \<and>
   count_list (trace diamond_final) (Started 3) = 1 \<and>
   count_list (trace diamond_final) (Finished 3) = 1 \<and>
   count_list (trace diamond_final) (Started 4) = 0 \<and>
   length diamond_schedule + steps_left diamond_final \<le> step_bound diamond"
proof -
  have len: "length (nodes diamond) = 4" by (simp add: diamond_eq)
  have ret: "caller diamond_final = Returned" by (simp add: diamond_final_def)
  have W: "0 < (2 :: nat)" by simp
  show ?thesis
    using execute_parallel_runs_each_node_once[OF wf_dag_diamond acyclic_diamond W,
        THEN conjunct2, rule_format, OF diamond_run]
      wf_dag_diamond acyclic_diamond diamond_run ret
    by (simp add: len)
qed

text \<open>
  A pool without workers (\<^verbatim>\<open>ThreadPool(0)\<close>) and the graph of one node: the calling
  thread enqueues \<^verbatim>\<open>dispatch(0)\<close> and waits; in that state no thread can take a step;
  and on no schedule does the call return or the work function get called.
\<close>

theorem execute_parallel_no_worker_never_runs:
  "wf_dag single \<and> acyclic (edges single) \<and> length (nodes single) = 1 \<and>
   execute_parallel [Caller, Caller, Caller] 0 single = Next single_stuck \<and>
   caller single_stuck = Wait \<and>
   count_list (trace single_stuck) (Started 0) = 0 \<and>
   (\<forall>t. step t single_stuck = Blocked) \<and>
   \<not> (\<exists>sched s. execute_parallel sched 0 single = Next s \<and> caller s = Returned) \<and>
   \<not> (\<exists>sched s. execute_parallel sched 0 single = Next s \<and> 0 < count_list (trace s) (Started 0))"
proof -
  have ne: "nodes single \<noteq> []" by (simp add: single_eq)
  have a: "\<not> (\<exists>sched s. execute_parallel sched 0 single = Next s \<and> caller s = Returned)"
    using starved_never(1)[OF ne] by blast
  have b: "\<not> (\<exists>sched s. execute_parallel sched 0 single = Next s \<and>
      0 < count_list (trace s) (Started 0))"
    using starved_never(2)[OF ne, of _ _ 0] by fastforce
  have c: "caller single_stuck = Wait" "count_list (trace single_stuck) (Started 0) = 0"
    "length (nodes single) = 1"
    by (simp_all add: single_stuck_def single_eq)
  show ?thesis
    using wf_dag_single acyclic_single single_run single_blocked a b c by simp
qed

text \<open>
  Claim C2.  Take a graph that satisfies the class invariant, any schedule, the state
  \<open>s\<close> it leads to, and any edge \<open>(u, v)\<close>.  Wherever the trace has a start of the
  work function for \<open>v\<close>, the return of the work function for \<open>u\<close> stands earlier in
  the trace.  And from \<^verbatim>\<open>reset()\<close> on, whenever the live counter of \<open>v\<close> is 0, the
  work function for \<open>u\<close> has returned and \<^verbatim>\<open>dispatch(u)\<close> has decremented that
  counter, once for each time \<open>v\<close> stands in the successor list of \<open>u\<close>.
\<close>

theorem execute_parallel_respects_edges:
  assumes "wf_dag g" and "execute_parallel sched W g = Next s" and "(u, v) \<in> edges g"
  shows "(\<forall>k < length (trace s). trace s ! k = Started v \<longrightarrow>
            Finished u \<in> set (take k (trace s))) \<and>
         (caller s \<noteq> Entry \<and> current_indegree (dag s) ! v = 0 \<longrightarrow>
            Finished u \<in> set (trace s) \<and>
            count_list (trace s) (Decremented u v) = count_list (adj g ! u) v \<and>
            0 < count_list (trace s) (Decremented u v))"
proof -
  note wf = assms(1) and ex = assms(2)
  have e: "u < length (adj g)" "v \<in> set (adj g ! u)"
    using assms(3) by (simp_all add: edges_iff)
  have len: "length (adj g) = length (nodes g)" using wf by (simp add: wf_dag_def)
  have un: "u < length (nodes g)" using e len by simp
  have vn: "v < length (nodes g)" using wf_dag_successor[OF wf un e(2)] .
  consider (init) "s = execute_parallel_init W g"
    | (empty) "nodes g = []" "s = (execute_parallel_init W g)\<lparr>caller := Returned\<rparr>"
    | (inv) "nodes g \<noteq> []" "pass_inv g W s"
    using execute_parallel_reach[OF wf ex] by blast
  then show ?thesis
  proof cases
    case init
    then show ?thesis by (simp add: init_facts)
  next
    case empty
    then show ?thesis using un by simp
  next
    case inv
    have cnt: "pass_counts g s" and ord: "ordered (adj g) (trace s)"
      using inv by (simp_all add: pass_inv_def)
    have a: "\<forall>k < length (trace s). trace s ! k = Started v \<longrightarrow>
        Finished u \<in> set (take k (trace s))"
      using ord e by (simp add: ordered_def)
    have b: "Finished u \<in> set (trace s) \<and>
        count_list (trace s) (Decremented u v) = count_list (adj g ! u) v \<and>
        0 < count_list (trace s) (Decremented u v)"
      if z: "current_indegree (dag s) ! v = 0"
    proof -
      have "count_list (adj g ! u) v \<noteq> 0" using e(2) by (simp add: count_list_0_iff)
      then show ?thesis
        using counter_zero_predecessor[OF wf cnt un vn z] e(2) by simp
    qed
    show ?thesis using a b by blast
  qed
qed

theorem execute_parallel_respects_edges_witness:
  "wf_dag diamond \<and> execute_parallel diamond_schedule 2 diamond = Next diamond_final \<and>
   (2, 3) \<in> edges diamond \<and>
   trace diamond_final ! 17 = Started 3 \<and>
   Finished 2 \<in> set (take 17 (trace diamond_final)) \<and>
   caller diamond_final \<noteq> Entry \<and>
   current_indegree (dag diamond_final) ! 3 = 0 \<and>
   Finished 2 \<in> set (trace diamond_final) \<and>
   count_list (trace diamond_final) (Decremented 2 3) = count_list (adj diamond ! 2) 3 \<and>
   0 < count_list (trace diamond_final) (Decremented 2 3)"
proof -
  have e: "(2, 3) \<in> edges diamond" by (simp add: edges_diamond)
  have f: "trace diamond_final ! 17 = Started 3" "length (trace diamond_final) = 21"
    "caller diamond_final \<noteq> Entry" "current_indegree (dag diamond_final) ! 3 = 0"
    by (simp_all add: diamond_final_def diamond_trace_def)
  show ?thesis
    using execute_parallel_respects_edges[OF wf_dag_diamond diamond_run e]
      wf_dag_diamond diamond_run e f
    by simp
qed

text \<open>
  Claim C3 (as it holds of the code).  Take a graph that satisfies the class invariant,
  any schedule, and a state \<open>s\<close> it leads to in which the call has returned.  If the
  graph has a node, there is one live counter per node, each of them is 0, and
  \<^verbatim>\<open>remaining\<close> is 0.  If the graph has no node, the call has returned before
  \<^verbatim>\<open>reset()\<close> and the graph, its run-state included, is as it was before the call.
\<close>

theorem execute_parallel_postcondition:
  assumes "wf_dag g" and "execute_parallel sched W g = Next s" and "caller s = Returned"
  shows "(nodes g \<noteq> [] \<longrightarrow>
            length (current_indegree (dag s)) = length (nodes g) \<and>
            (\<forall>v < length (nodes g). current_indegree (dag s) ! v = 0) \<and>
            remaining (dag s) = 0) \<and>
         (nodes g = [] \<longrightarrow> dag s = g)"
proof -
  note wf = assms(1) and ex = assms(2) and ret = assms(3)
  consider (init) "s = execute_parallel_init W g"
    | (empty) "nodes g = []" "s = (execute_parallel_init W g)\<lparr>caller := Returned\<rparr>"
    | (inv) "nodes g \<noteq> []" "pass_inv g W s"
    using execute_parallel_reach[OF wf ex] by blast
  then show ?thesis
  proof cases
    case init
    then show ?thesis using ret by (simp add: init_facts)
  next
    case empty
    then show ?thesis by (simp add: init_facts)
  next
    case inv
    have str: "pass_structure g W s" and cnt: "pass_counts g s"
      using inv by (simp_all add: pass_inv_def)
    have z: "remaining (dag s) = 0" using pass_countsD(8)[OF cnt ret] .
    have "length (current_indegree (dag s)) = length (nodes g)"
      using str by (simp add: pass_structure_def)
    moreover have "\<forall>v < length (nodes g). current_indegree (dag s) ! v = 0"
      using counters_zero_at_end[OF wf cnt z] by simp
    ultimately show ?thesis using z inv(1) by simp
  qed
qed

theorem execute_parallel_postcondition_witness:
  "wf_dag diamond \<and> execute_parallel diamond_schedule 2 diamond = Next diamond_final \<and>
   caller diamond_final = Returned \<and>
   length (current_indegree (dag diamond_final)) = 4 \<and>
   current_indegree (dag diamond_final) ! 0 = 0 \<and>
   current_indegree (dag diamond_final) ! 1 = 0 \<and>
   current_indegree (dag diamond_final) ! 2 = 0 \<and>
   current_indegree (dag diamond_final) ! 3 = 0 \<and>
   remaining (dag diamond_final) = 0 \<and>
   wf_dag (DAG_default 0 :: (nat, nat, int) DAG) \<and>
   execute_parallel [Caller] 2 (DAG_default 0 :: (nat, nat, int) DAG) =
     Next \<lparr>dag = DAG_default 0, thread_pool = ThreadPool_new 2, caller = Returned, trace = []\<rparr>"
proof -
  have ret: "caller diamond_final = Returned" by (simp add: diamond_final_def)
  have ne: "nodes diamond \<noteq> []" "length (nodes diamond) = 4" by (simp_all add: diamond_eq)
  let ?e = "\<lparr>dag = DAG_default 0 :: (nat, nat, int) DAG, thread_pool = ThreadPool_new 2,
    caller = Returned, trace = []\<rparr>"
  have er: "execute_parallel [Caller] 2 (DAG_default 0 :: (nat, nat, int) DAG) = Next ?e"
    by (simp add: execute_parallel_def execute_parallel_init_def caller_step_def DAG_default_def)
  have "caller ?e = Returned" by simp
  then show ?thesis
    using execute_parallel_postcondition[OF wf_dag_diamond diamond_run ret]
      execute_parallel_postcondition[OF wf_dag_default er]
      wf_dag_diamond diamond_run ret ne er wf_dag_default[of 0]
    by simp
qed

text \<open>
  A graph that was default-constructed and never given a node: the call returns at the
  emptiness test, and \<^verbatim>\<open>remaining\<close> still holds what it held, here 7, not 0.
\<close>

theorem execute_parallel_empty_keeps_remaining:
  "execute_parallel [Caller] 2 (DAG_default 7 :: (nat, nat, int) DAG) =
     Next \<lparr>dag = DAG_default 7, thread_pool = ThreadPool_new 2, caller = Returned, trace = []\<rparr> \<and>
   remaining (DAG_default 7 :: (nat, nat, int) DAG) = 7"
  by (simp add: execute_parallel_def execute_parallel_init_def caller_step_def DAG_default_def)


end
